theory Spec2Isabelle
  imports Main "HOL-Library.Word"
begin

unbundle bit_operations_syntax

section \<open>Errors\<close>

text \<open>
  One constructor per \<^verbatim>\<open>raise\<close> site (or implicit Python exception) of
  \<^verbatim>\<open>alphabeta.py\<close>. \<open>OutOfFuel\<close> is the only constructor that is not a Python
  exception: it marks a run of \<open>search\<close> that needed more nested calls than
  the recursion budget it was given.
\<close>

datatype error =
    CapacityNotPositive
  | KeyOutOfRange
  | ValueOutOfRange
  | InvalidMoveChar
  | MoveOutOfRange
  | ColumnFull
  | UnsupportedSize
  | NegativeBoard
  | InvalidColCode
  | InvalidHeight
  | EmptyMax
  | IndexError
  | ZeroDivision
  | AssertionFailed
  | UnboundLocal
  | OutOfFuel

section \<open>The transposition table \<^verbatim>\<open>TT49x8RobinHood\<close>\<close>

text \<open>
  Python integers are unbounded; every quantity below is non-negative, so the
  table works on \<open>nat\<close>. Keys and values arrive as \<open>int\<close> and are range
  checked first, exactly as in the source. A slot of the \<^verbatim>\<open>array("Q")\<close> is a
  natural number; every entry written is below \<open>2 ^ 64\<close> once the range checks
  have passed.
\<close>

definition KEY_BITS :: nat where "KEY_BITS = 50"
definition KEY_MASK :: nat where "KEY_MASK = 2 ^ 50 - 1"
definition VAL_SHIFT :: nat where "VAL_SHIFT = 50"
definition KEY_MAX :: int where "KEY_MAX = 2 ^ 49 - 1"

record TT =
  cap :: nat
  slots :: "nat list"
  size_tt :: nat

definition TT_new :: "int \<Rightarrow> error + TT" where
  "TT_new capacity =
     (if capacity \<le> 0 then Inl CapacityNotPositive
      else Inr \<lparr>cap = nat capacity, slots = replicate (nat capacity) 0, size_tt = 0\<rparr>)"

definition mask64 :: nat where "mask64 = 2 ^ 64 - 1"

definition hash64 :: "nat \<Rightarrow> nat" where
  "hash64 x =
     (let x0 = x AND mask64;
          x1 = (x0 + 0x9E3779B97F4A7C15) AND mask64;
          x2 = ((x1 XOR drop_bit 30 x1) * 0xBF58476D1CE4E5B9) AND mask64;
          x3 = ((x2 XOR drop_bit 27 x2) * 0x94D049BB133111EB) AND mask64
      in x3 XOR drop_bit 31 x3)"

definition home :: "nat \<Rightarrow> nat \<Rightarrow> nat" where
  "home c key_plus = hash64 key_plus mod c"

definition dist :: "nat \<Rightarrow> nat \<Rightarrow> nat \<Rightarrow> nat" where
  "dist c idx hm = (if idx \<ge> hm then idx - hm else idx + c - hm)"

text \<open>The index step \<^verbatim>\<open>i += 1; if i == cap: i = 0\<close>.\<close>

definition advance :: "nat \<Rightarrow> nat \<Rightarrow> nat" where
  "advance c i = (if i + 1 = c then 0 else i + 1)"

text \<open>
  The \<^verbatim>\<open>while dib < cap\<close> loop of \<^verbatim>\<open>get\<close>. Reading \<^verbatim>\<open>slots[i]\<close> past the end
  of the array raises in Python.
\<close>

function get_loop :: "nat \<Rightarrow> nat list \<Rightarrow> nat \<Rightarrow> nat \<Rightarrow> nat \<Rightarrow> error + nat option" where
  "get_loop c sl kp i dib =
     (if dib < c then
        (if length sl \<le> i then Inl IndexError
         else if sl ! i = 0 then Inr None
         else if (sl ! i) AND KEY_MASK = kp then Inr (Some (drop_bit VAL_SHIFT (sl ! i)))
         else if dist c i (home c ((sl ! i) AND KEY_MASK)) < dib then Inr None
         else get_loop c sl kp (advance c i) (dib + 1))
      else Inr None)"
  by pat_completeness auto
termination
  by (relation "measure (\<lambda>(c, sl, kp, i, dib). c - dib)") auto

declare get_loop.simps [simp del]

definition TT_get :: "TT \<Rightarrow> int \<Rightarrow> error + int option" where
  "TT_get t key =
     (if key < 0 \<or> key > KEY_MAX then Inl KeyOutOfRange
      else if cap t = 0 then Inl ZeroDivision
      else (case get_loop (cap t) (slots t) (nat (key + 1)) (home (cap t) (nat (key + 1))) 0 of
              Inl e \<Rightarrow> Inl e
            | Inr r \<Rightarrow> Inr (map_option int r)))"

text \<open>
  The loop of \<^verbatim>\<open>set\<close>. The three ways it ends are kept apart: an empty slot
  was filled (\<^verbatim>\<open>size += 1\<close>), a slot holding the key was overwritten, or the loop
  condition \<^verbatim>\<open>dib < cap\<close> failed and the function fell off its end.
\<close>

datatype set_exit = Inserted | Updated | Exhausted

text \<open>
  Termination of the Robin-Hood traversal: \<open>dib\<close> is reset at a swap, so it is
  not a measure on its own. Once the carried entry is one that came out of a
  slot, \<open>dib\<close> is its true distance from home, and a swap strictly increases
  the sum of all distances in the table.
\<close>

definition slot_dist :: "nat \<Rightarrow> nat \<Rightarrow> nat \<Rightarrow> nat" where
  "slot_dist c j e = dist c j (home c (e AND KEY_MASK))"

definition total_dist :: "nat \<Rightarrow> nat list \<Rightarrow> nat" where
  "total_dist c sl = (\<Sum>j<length sl. slot_dist c j (sl ! j))"

definition dist_bound :: "nat \<Rightarrow> nat list \<Rightarrow> nat" where
  "dist_bound c sl = length sl * (length sl + c)"

definition carried_ok :: "nat \<Rightarrow> nat \<Rightarrow> nat \<Rightarrow> nat \<Rightarrow> bool" where
  "carried_ok c i dib entry \<longleftrightarrow> c \<le> dib \<or> dib = slot_dist c i entry"

definition set_measure :: "nat \<times> nat list \<times> nat \<times> nat \<times> nat \<times> nat \<Rightarrow> nat \<times> nat \<times> nat" where
  "set_measure = (\<lambda>(c, sl, kp, i, dib, entry).
     (if carried_ok c i dib entry then 0 else 1, dist_bound c sl - total_dist c sl, c - dib))"

lemma home_less: "0 < c \<Longrightarrow> home c k < c"
  by (simp add: home_def)

lemma slot_dist_le: "slot_dist c j e \<le> j + c"
  unfolding slot_dist_def dist_def by arith

lemma total_dist_le: "0 < c \<Longrightarrow> total_dist c sl \<le> dist_bound c sl"
proof -
  assume c: "0 < c"
  have "total_dist c sl \<le> (\<Sum>j<length sl. length sl + c)"
    unfolding total_dist_def
  proof (rule sum_mono)
    fix j assume "j \<in> {..<length sl}"
    then have "j < length sl" by simp
    with slot_dist_le [of c j "sl ! j"] show "slot_dist c j (sl ! j) \<le> length sl + c"
      by simp
  qed
  then show ?thesis by (simp add: dist_bound_def)
qed

lemma total_dist_update:
  assumes "i < length sl"
  shows "total_dist c (sl[i := x]) + slot_dist c i (sl ! i) = total_dist c sl + slot_dist c i x"
proof -
  let ?A = "{..<length sl}"
  have fin: "finite ?A" and mem: "i \<in> ?A" using assms by simp_all
  have rest: "(\<Sum>j\<in>?A - {i}. slot_dist c j (sl[i := x] ! j)) = (\<Sum>j\<in>?A - {i}. slot_dist c j (sl ! j))"
    by (rule sum.cong) auto
  have "total_dist c (sl[i := x]) = slot_dist c i x + (\<Sum>j\<in>?A - {i}. slot_dist c j (sl[i := x] ! j))"
    unfolding total_dist_def using sum.remove [OF fin mem, of "\<lambda>j. slot_dist c j (sl[i := x] ! j)"] assms
    by simp
  moreover have "total_dist c sl = slot_dist c i (sl ! i) + (\<Sum>j\<in>?A - {i}. slot_dist c j (sl ! j))"
    unfolding total_dist_def using sum.remove [OF fin mem, of "\<lambda>j. slot_dist c j (sl ! j)"]
    by simp
  ultimately show ?thesis using rest by simp
qed

lemma dist_advance:
  assumes "hm < c" and "dist c i hm + 1 < c"
  shows "dist c (advance c i) hm = dist c i hm + 1"
  using assms by (auto simp: dist_def advance_def split: if_splits)

lemma carried_ok_step:
  assumes "0 < c"
  shows "carried_ok c (advance c i) (slot_dist c i e + 1) e"
proof (cases "slot_dist c i e + 1 < c")
  case True
  then show ?thesis
    using dist_advance [of "home c (e AND KEY_MASK)" c i] home_less [OF assms]
    by (simp add: carried_ok_def slot_dist_def)
next
  case False
  then show ?thesis by (simp add: carried_ok_def)
qed

function set_loop ::
  "nat \<Rightarrow> nat list \<Rightarrow> nat \<Rightarrow> nat \<Rightarrow> nat \<Rightarrow> nat \<Rightarrow> error + nat list \<times> set_exit" where
  "set_loop c sl kp i dib entry =
     (if dib < c then
        (if length sl \<le> i then Inl IndexError
         else if sl ! i = 0 then Inr (sl[i := entry], Inserted)
         else if (sl ! i) AND KEY_MASK = kp then Inr (sl[i := entry], Updated)
         else if dist c i (home c ((sl ! i) AND KEY_MASK)) < dib
           then set_loop c (sl[i := entry]) kp (advance c i)
                  (dist c i (home c ((sl ! i) AND KEY_MASK)) + 1) (sl ! i)
           else set_loop c sl kp (advance c i) (dib + 1) entry)
      else Inr (sl, Exhausted))"
  by pat_completeness auto
termination
proof (relation "inv_image (less_than <*lex*> less_than <*lex*> less_than) set_measure")
  show "wf (inv_image (less_than <*lex*> less_than <*lex*> less_than) set_measure)"
    by (intro wf_inv_image wf_lex_prod wf_less_than)
next
  fix c :: nat and sl :: "nat list" and kp i dib entry :: nat
  assume dib: "dib < c" and i: "\<not> length sl \<le> i"
    and swap: "dist c i (home c ((sl ! i) AND KEY_MASK)) < dib"
  let ?e = "sl ! i"
  have c: "0 < c" using dib by simp
  have ok': "carried_ok c (advance c i) (slot_dist c i ?e + 1) ?e"
    by (rule carried_ok_step [OF c])
  show "((c, sl[i := entry], kp, advance c i, dist c i (home c (?e AND KEY_MASK)) + 1, ?e),
         (c, sl, kp, i, dib, entry))
        \<in> inv_image (less_than <*lex*> less_than <*lex*> less_than) set_measure"
  proof (cases "carried_ok c i dib entry")
    case False
    with ok' show ?thesis by (simp add: set_measure_def slot_dist_def)
  next
    case True
    with dib have eq: "dib = slot_dist c i entry" by (simp add: carried_ok_def)
    have upd: "total_dist c (sl[i := entry]) + slot_dist c i ?e = total_dist c sl + slot_dist c i entry"
      using total_dist_update [of i sl c entry] i by simp
    have lt: "slot_dist c i ?e < slot_dist c i entry"
      using swap eq by (simp add: slot_dist_def)
    have le: "total_dist c (sl[i := entry]) \<le> dist_bound c (sl[i := entry])"
      by (rule total_dist_le [OF c])
    have "dist_bound c (sl[i := entry]) = dist_bound c sl" by (simp add: dist_bound_def)
    with upd lt le
    have "dist_bound c (sl[i := entry]) - total_dist c (sl[i := entry]) < dist_bound c sl - total_dist c sl"
      by linarith
    with True ok' show ?thesis by (simp add: set_measure_def slot_dist_def)
  qed
next
  fix c :: nat and sl :: "nat list" and kp i dib entry :: nat
  assume dib: "dib < c" and i: "\<not> length sl \<le> i"
    and noswap: "\<not> dist c i (home c ((sl ! i) AND KEY_MASK)) < dib"
  have c: "0 < c" using dib by simp
  show "((c, sl, kp, advance c i, dib + 1, entry), (c, sl, kp, i, dib, entry))
        \<in> inv_image (less_than <*lex*> less_than <*lex*> less_than) set_measure"
  proof (cases "carried_ok c i dib entry")
    case True
    with dib have eq: "dib = slot_dist c i entry" by (simp add: carried_ok_def)
    have "carried_ok c (advance c i) (dib + 1) entry"
      using carried_ok_step [OF c, of i entry] eq by simp
    with True dib show ?thesis by (simp add: set_measure_def)
  next
    case False
    with dib show ?thesis by (auto simp: set_measure_def)
  qed
qed

declare set_loop.simps [simp del]

definition TT_set :: "TT \<Rightarrow> int \<Rightarrow> int \<Rightarrow> error + TT" where
  "TT_set t key val =
     (if key < 0 \<or> key > KEY_MAX then Inl KeyOutOfRange
      else if val < 0 \<or> val \<ge> 2 ^ 14 then Inl ValueOutOfRange
      else if cap t = 0 then Inl ZeroDivision
      else (let kp = nat (key + 1);
                entry = kp OR push_bit VAL_SHIFT (nat val)
            in case set_loop (cap t) (slots t) kp (home (cap t) kp) 0 entry of
                 Inl e \<Rightarrow> Inl e
               | Inr (sl, Inserted) \<Rightarrow> Inr (t\<lparr>slots := sl, size_tt := size_tt t + 1\<rparr>)
               | Inr (sl, _) \<Rightarrow> Inr (t\<lparr>slots := sl\<rparr>)))"

section \<open>Well-formed tables and the outcome of \<^verbatim>\<open>set\<close>\<close>

text \<open>
  The constructor fixes \<open>cap\<close> to the length of the slot array and rejects a
  capacity that is not positive; no method changes either.
\<close>

definition wf_TT :: "TT \<Rightarrow> bool" where
  "wf_TT t \<longleftrightarrow> 0 < cap t \<and> length (slots t) = cap t"

lemma advance_less: "i < c \<Longrightarrow> advance c i < c"
  by (auto simp: advance_def)

lemma set_loop_Inr:
  "length sl = c \<Longrightarrow> i < c \<Longrightarrow>
   \<exists>sl' ex. set_loop c sl kp i dib entry = Inr (sl', ex) \<and> length sl' = c"
proof (induction c sl kp i dib entry rule: set_loop.induct)
  case (1 c sl kp i dib entry)
  show ?case
    using "1.IH" "1.prems" advance_less [of i c]
    by (subst set_loop.simps) auto
qed

text \<open>
  C2 (as the code has it). \<^verbatim>\<open>set\<close> has no table-full error: for an in-range key
  and value on a well-formed table it always returns normally, whichever way
  the traversal ends. When the traversal is exhausted after \<open>cap\<close> probe steps
  the carried entry is simply not written, and the size field keeps its value;
  the size grows only when an empty slot was filled.
\<close>

theorem TT_set_returns:
  assumes "wf_TT t" and "0 \<le> key" and "key \<le> KEY_MAX" and "0 \<le> val" and "val < 2 ^ 14"
  shows "\<exists>sl ex.
    set_loop (cap t) (slots t) (nat (key + 1)) (home (cap t) (nat (key + 1))) 0
      (nat (key + 1) OR push_bit VAL_SHIFT (nat val)) = Inr (sl, ex) \<and>
    TT_set t key val =
      Inr (t\<lparr>slots := sl, size_tt := (if ex = Inserted then size_tt t + 1 else size_tt t)\<rparr>)"
proof -
  from assms(1) have c: "0 < cap t" and len: "length (slots t) = cap t"
    by (simp_all add: wf_TT_def)
  from set_loop_Inr [OF len home_less [OF c]]
  obtain sl ex where
    "set_loop (cap t) (slots t) (nat (key + 1)) (home (cap t) (nat (key + 1))) 0
      (nat (key + 1) OR push_bit VAL_SHIFT (nat val)) = Inr (sl, ex)"
    by blast
  with assms c show ?thesis
    by (cases ex) (simp_all add: TT_set_def Let_def)
qed

theorem TT_set_returns_witness:
  "TT_set \<lparr>cap = 1, slots = [1], size_tt = 1\<rparr> 1 7 = Inr \<lparr>cap = 1, slots = [1], size_tt = 1\<rparr>"
  using TT_set_returns [of "\<lparr>cap = 1, slots = [1], size_tt = 1\<rparr>" 1 7]
  by (simp add: wf_TT_def KEY_MAX_def home_def set_loop.simps advance_def dist_def
      KEY_MASK_def VAL_SHIFT_def)

text \<open>
  C2 (as stated) fails. A table of capacity 1 that holds key 0 is full. Setting
  key 1 walks the single slot, leaves the loop with the carried entry unplaced,
  and returns normally with the table unchanged: no error, and key 1 is absent.
\<close>

theorem TT_set_full_counterexample:
  "TT_new 1 = Inr \<lparr>cap = 1, slots = [0], size_tt = 0\<rparr> \<and>
   TT_set \<lparr>cap = 1, slots = [0], size_tt = 0\<rparr> 0 0 = Inr \<lparr>cap = 1, slots = [1], size_tt = 1\<rparr> \<and>
   set_loop 1 [1] 2 (home 1 2) 0 (2 OR push_bit VAL_SHIFT 7) = Inr ([1], Exhausted) \<and>
   TT_set \<lparr>cap = 1, slots = [1], size_tt = 1\<rparr> 1 7 = Inr \<lparr>cap = 1, slots = [1], size_tt = 1\<rparr> \<and>
   TT_get \<lparr>cap = 1, slots = [1], size_tt = 1\<rparr> 1 = Inr None"
  by (simp add: TT_new_def TT_set_def TT_get_def KEY_MAX_def home_def set_loop.simps
      get_loop.simps advance_def dist_def KEY_MASK_def VAL_SHIFT_def Let_def)

section \<open>Reasoning about the two traversals\<close>

text \<open>One step of each loop, as a case distinction following the source's branches.\<close>

lemma set_loop_cases [case_names exhausted oob inserted updated swap pass]:
  obtains
    "\<not> dib < c" "set_loop c sl kp i dib entry = Inr (sl, Exhausted)"
  | "dib < c" "length sl \<le> i" "set_loop c sl kp i dib entry = Inl IndexError"
  | "dib < c" "i < length sl" "sl ! i = 0" "set_loop c sl kp i dib entry = Inr (sl[i := entry], Inserted)"
  | "dib < c" "i < length sl" "sl ! i \<noteq> 0" "(sl ! i) AND KEY_MASK = kp"
      "set_loop c sl kp i dib entry = Inr (sl[i := entry], Updated)"
  | "dib < c" "i < length sl" "sl ! i \<noteq> 0" "(sl ! i) AND KEY_MASK \<noteq> kp"
      "dist c i (home c ((sl ! i) AND KEY_MASK)) < dib"
      "set_loop c sl kp i dib entry =
         set_loop c (sl[i := entry]) kp (advance c i) (dist c i (home c ((sl ! i) AND KEY_MASK)) + 1) (sl ! i)"
  | "dib < c" "i < length sl" "sl ! i \<noteq> 0" "(sl ! i) AND KEY_MASK \<noteq> kp"
      "\<not> dist c i (home c ((sl ! i) AND KEY_MASK)) < dib"
      "set_loop c sl kp i dib entry = set_loop c sl kp (advance c i) (dib + 1) entry"
proof -
  note eq = set_loop.simps [of c sl kp i dib entry]
  consider "\<not> dib < c" | "dib < c" "length sl \<le> i" | "dib < c" "i < length sl" "sl ! i = 0"
    | "dib < c" "i < length sl" "sl ! i \<noteq> 0" "(sl ! i) AND KEY_MASK = kp"
    | "dib < c" "i < length sl" "sl ! i \<noteq> 0" "(sl ! i) AND KEY_MASK \<noteq> kp"
      "dist c i (home c ((sl ! i) AND KEY_MASK)) < dib"
    | "dib < c" "i < length sl" "sl ! i \<noteq> 0" "(sl ! i) AND KEY_MASK \<noteq> kp"
      "\<not> dist c i (home c ((sl ! i) AND KEY_MASK)) < dib"
    by linarith
  then show thesis
  proof cases
    case 1 with eq that(1) show ?thesis by simp
  next
    case 2 with eq that(2) show ?thesis by simp
  next
    case 3 with eq that(3) show ?thesis by simp
  next
    case 4 with eq that(4) show ?thesis by simp
  next
    case 5 with eq that(5) show ?thesis by simp
  next
    case 6 with eq that(6) show ?thesis by simp
  qed
qed

lemma get_loop_cases [case_names exhausted oob empty found richer pass]:
  obtains
    "\<not> dib < c" "get_loop c sl kp i dib = Inr None"
  | "dib < c" "length sl \<le> i" "get_loop c sl kp i dib = Inl IndexError"
  | "dib < c" "i < length sl" "sl ! i = 0" "get_loop c sl kp i dib = Inr None"
  | "dib < c" "i < length sl" "sl ! i \<noteq> 0" "(sl ! i) AND KEY_MASK = kp"
      "get_loop c sl kp i dib = Inr (Some (drop_bit VAL_SHIFT (sl ! i)))"
  | "dib < c" "i < length sl" "sl ! i \<noteq> 0" "(sl ! i) AND KEY_MASK \<noteq> kp"
      "dist c i (home c ((sl ! i) AND KEY_MASK)) < dib" "get_loop c sl kp i dib = Inr None"
  | "dib < c" "i < length sl" "sl ! i \<noteq> 0" "(sl ! i) AND KEY_MASK \<noteq> kp"
      "\<not> dist c i (home c ((sl ! i) AND KEY_MASK)) < dib"
      "get_loop c sl kp i dib = get_loop c sl kp (advance c i) (dib + 1)"
proof -
  note eq = get_loop.simps [of c sl kp i dib]
  consider "\<not> dib < c" | "dib < c" "length sl \<le> i" | "dib < c" "i < length sl" "sl ! i = 0"
    | "dib < c" "i < length sl" "sl ! i \<noteq> 0" "(sl ! i) AND KEY_MASK = kp"
    | "dib < c" "i < length sl" "sl ! i \<noteq> 0" "(sl ! i) AND KEY_MASK \<noteq> kp"
      "dist c i (home c ((sl ! i) AND KEY_MASK)) < dib"
    | "dib < c" "i < length sl" "sl ! i \<noteq> 0" "(sl ! i) AND KEY_MASK \<noteq> kp"
      "\<not> dist c i (home c ((sl ! i) AND KEY_MASK)) < dib"
    by linarith
  then show thesis
  proof cases
    case 1 with eq that(1) show ?thesis by simp
  next
    case 2 with eq that(2) show ?thesis by simp
  next
    case 3 with eq that(3) show ?thesis by simp
  next
    case 4 with eq that(4) show ?thesis by simp
  next
    case 5 with eq that(5) show ?thesis by simp
  next
    case 6 with eq that(6) show ?thesis by simp
  qed
qed

lemma get_loop_Inr:
  "length sl = c \<Longrightarrow> i < c \<Longrightarrow> \<exists>r. get_loop c sl kp i dib = Inr r"
proof (induction c sl kp i dib rule: get_loop.induct)
  case (1 c sl kp i dib)
  show ?case
    using "1.IH" "1.prems" advance_less [of i c]
    by (cases rule: get_loop_cases [of dib c sl kp i]) auto
qed

lemma get_loop_Some:
  "get_loop c sl kp i dib = Inr (Some v) \<Longrightarrow> \<exists>e\<in>set sl. e \<noteq> 0 \<and> e AND KEY_MASK = kp"
proof (induction c sl kp i dib rule: get_loop.induct)
  case (1 c sl kp i dib)
  show ?case
    using "1.IH" "1.prems"
    by (cases rule: get_loop_cases [of dib c sl kp i]) (auto simp: nth_mem)
qed

lemma set_loop_subset:
  "set_loop c sl kp i dib entry = Inr (sl', ex) \<Longrightarrow> set sl' \<subseteq> insert entry (set sl)"
proof (induction c sl kp i dib entry arbitrary: sl' ex rule: set_loop.induct)
  case (1 c sl kp i dib entry)
  show ?case
  proof (cases rule: set_loop_cases [of dib c sl kp i entry])
    case exhausted
    with "1.prems" show ?thesis by auto
  next
    case oob
    with "1.prems" show ?thesis by simp
  next
    case inserted
    with "1.prems" set_update_subset_insert [of sl i entry] show ?thesis by auto
  next
    case updated
    with "1.prems" set_update_subset_insert [of sl i entry] show ?thesis by auto
  next
    case swap
    with "1.prems" have "set sl' \<subseteq> insert (sl ! i) (set (sl[i := entry]))"
      by (intro "1.IH"(1)) auto
    with set_update_subset_insert [of sl i entry] nth_mem [OF swap(2)] show ?thesis by auto
  next
    case pass
    with "1.prems" show ?thesis by (intro "1.IH"(2)) auto
  qed
qed

lemma KEY_MASK_mask: "KEY_MASK = mask 50"
  by (simp add: KEY_MASK_def mask_eq_exp_minus_1)

lemma entry_key:
  assumes "kp < (2::nat) ^ 50"
  shows "(kp OR push_bit VAL_SHIFT v) AND KEY_MASK = kp"
proof -
  have a: "take_bit 50 kp = kp" using assms by (rule take_bit_nat_eq_self)
  have "(kp OR push_bit 50 v) AND mask 50 = take_bit 50 (kp OR push_bit 50 v)"
    by (simp only: take_bit_eq_mask)
  also have "\<dots> = kp"
    by (simp only: take_bit_or take_bit_push_bit a) simp
  finally show ?thesis by (simp only: KEY_MASK_mask VAL_SHIFT_def)
qed

lemma entry_val:
  assumes "kp < (2::nat) ^ 50"
  shows "drop_bit VAL_SHIFT (kp OR push_bit VAL_SHIFT v) = v"
proof -
  have "kp div (2::nat) ^ 50 = 0" using assms by (rule div_less)
  then have "drop_bit 50 kp = 0" by (simp only: drop_bit_eq_div)
  then show ?thesis by (simp add: VAL_SHIFT_def bit_eq_iff bit_simps)
qed

lemma entry_nonzero: "0 < kp \<Longrightarrow> kp OR push_bit VAL_SHIFT v \<noteq> (0::nat)"
  by (auto simp: or_eq_0_iff)

section \<open>Sequences of \<^verbatim>\<open>set\<close> calls\<close>

text \<open>
  A caller's sequence of \<^verbatim>\<open>set(key, value)\<close> calls on one table. A call that
  raises does so before it writes anything, so the table it leaves is the one
  it found.
\<close>

definition set_step :: "TT \<Rightarrow> int \<times> int \<Rightarrow> TT" where
  "set_step t kv = (case TT_set t (fst kv) (snd kv) of Inl e \<Rightarrow> t | Inr t' \<Rightarrow> t')"

definition set_all :: "TT \<Rightarrow> (int \<times> int) list \<Rightarrow> TT" where
  "set_all t ops = foldl set_step t ops"

definition stored_keys :: "int set \<Rightarrow> nat list \<Rightarrow> bool" where
  "stored_keys K sl \<longleftrightarrow>
     (\<forall>e\<in>set sl. e = 0 \<or> (\<exists>k\<in>K. 0 \<le> k \<and> e AND KEY_MASK = nat (k + 1)))"

lemma TT_set_Inr:
  assumes "TT_set t key val = Inr t'"
  obtains sl ex where "0 \<le> key" "key \<le> KEY_MAX" "0 \<le> val" "val < 2 ^ 14" "0 < cap t"
    "set_loop (cap t) (slots t) (nat (key + 1)) (home (cap t) (nat (key + 1))) 0
       (nat (key + 1) OR push_bit VAL_SHIFT (nat val)) = Inr (sl, ex)"
    "t' = t\<lparr>slots := sl, size_tt := (if ex = Inserted then size_tt t + 1 else size_tt t)\<rparr>"
proof -
  from assms have r: "0 \<le> key" "key \<le> KEY_MAX" "0 \<le> val" "val < 2 ^ 14" "0 < cap t"
    by (auto simp: TT_set_def split: if_splits)
  with assms obtain sl ex where
    "set_loop (cap t) (slots t) (nat (key + 1)) (home (cap t) (nat (key + 1))) 0
       (nat (key + 1) OR push_bit VAL_SHIFT (nat val)) = Inr (sl, ex)"
    by (auto simp: TT_set_def Let_def split: sum.splits)
  moreover from this assms r
  have "t' = t\<lparr>slots := sl, size_tt := (if ex = Inserted then size_tt t + 1 else size_tt t)\<rparr>"
    by (cases ex) (auto simp: TT_set_def Let_def)
  ultimately show thesis using r that by blast
qed

lemma key_plus_bound: "0 \<le> key \<Longrightarrow> key \<le> KEY_MAX \<Longrightarrow> 0 < nat (key + 1) \<and> nat (key + 1) < 2 ^ 50"
  by (simp add: KEY_MAX_def nat_less_iff)

lemma wf_TT_set:
  assumes "wf_TT t" and "TT_set t key val = Inr t'"
  shows "wf_TT t'"
proof -
  from assms(2) obtain sl ex where
    s: "set_loop (cap t) (slots t) (nat (key + 1)) (home (cap t) (nat (key + 1))) 0
       (nat (key + 1) OR push_bit VAL_SHIFT (nat val)) = Inr (sl, ex)"
    and t': "t' = t\<lparr>slots := sl, size_tt := (if ex = Inserted then size_tt t + 1 else size_tt t)\<rparr>"
    by (rule TT_set_Inr)
  from assms(1) have c: "0 < cap t" and len: "length (slots t) = cap t"
    by (simp_all add: wf_TT_def)
  have "\<exists>sl' ex. set_loop (cap t) (slots t) (nat (key + 1)) (home (cap t) (nat (key + 1))) 0
       (nat (key + 1) OR push_bit VAL_SHIFT (nat val)) = Inr (sl', ex) \<and> length sl' = cap t"
    by (rule set_loop_Inr [OF len home_less [OF c]])
  with s have "length sl = cap t" by auto
  with c t' show ?thesis by (simp add: wf_TT_def)
qed

lemma wf_set_step: "wf_TT t \<Longrightarrow> wf_TT (set_step t kv)"
  by (auto simp: set_step_def split: sum.splits intro: wf_TT_set)

lemma wf_set_all: "wf_TT t \<Longrightarrow> wf_TT (set_all t ops)"
  unfolding set_all_def by (induction ops arbitrary: t) (simp_all add: wf_set_step)

lemma wf_TT_new: "TT_new capacity = Inr t \<Longrightarrow> wf_TT t"
  by (auto simp: TT_new_def wf_TT_def split: if_splits)

lemma stored_keys_mono: "stored_keys K sl \<Longrightarrow> K \<subseteq> K' \<Longrightarrow> stored_keys K' sl"
  unfolding stored_keys_def by blast

lemma stored_keys_set_step:
  assumes "stored_keys K (slots t)"
  shows "stored_keys (insert (fst kv) K) (slots (set_step t kv))"
proof (cases "TT_set t (fst kv) (snd kv)")
  case (Inl e)
  with assms show ?thesis
    by (auto simp: set_step_def intro: stored_keys_mono)
next
  case (Inr t')
  then obtain sl ex where r: "0 \<le> fst kv" "fst kv \<le> KEY_MAX"
    and s: "set_loop (cap t) (slots t) (nat (fst kv + 1)) (home (cap t) (nat (fst kv + 1))) 0
       (nat (fst kv + 1) OR push_bit VAL_SHIFT (nat (snd kv))) = Inr (sl, ex)"
    and t': "t' = t\<lparr>slots := sl, size_tt := (if ex = Inserted then size_tt t + 1 else size_tt t)\<rparr>"
    by (rule TT_set_Inr)
  have key: "(nat (fst kv + 1) OR push_bit VAL_SHIFT (nat (snd kv))) AND KEY_MASK = nat (fst kv + 1)"
    using key_plus_bound [OF r] by (intro entry_key) simp
  have "stored_keys (insert (fst kv) K) sl"
    unfolding stored_keys_def
  proof
    fix e assume "e \<in> set sl"
    with set_loop_subset [OF s]
    have "e = nat (fst kv + 1) OR push_bit VAL_SHIFT (nat (snd kv)) \<or> e \<in> set (slots t)"
      by auto
    then show "e = 0 \<or> (\<exists>k\<in>insert (fst kv) K. 0 \<le> k \<and> e AND KEY_MASK = nat (k + 1))"
    proof
      assume "e = nat (fst kv + 1) OR push_bit VAL_SHIFT (nat (snd kv))"
      with key r show ?thesis by auto
    next
      assume "e \<in> set (slots t)"
      with assms show ?thesis unfolding stored_keys_def by blast
    qed
  qed
  with Inr t' show ?thesis by (simp add: set_step_def)
qed

lemma stored_keys_set_all:
  "stored_keys K (slots t) \<Longrightarrow> stored_keys (K \<union> fst ` set ops) (slots (set_all t ops))"
  unfolding set_all_def
proof (induction ops arbitrary: t K)
  case Nil
  then show ?case by simp
next
  case (Cons kv ops)
  from Cons.IH [OF stored_keys_set_step [OF Cons.prems, of kv]]
  show ?case by simp
qed

lemma TT_get_absent:
  assumes "wf_TT t" and "stored_keys K (slots t)" and "0 \<le> k" and "k \<le> KEY_MAX" and "k \<notin> K"
  shows "TT_get t k = Inr None"
proof -
  from assms(1) have c: "0 < cap t" and len: "length (slots t) = cap t"
    by (simp_all add: wf_TT_def)
  from get_loop_Inr [OF len home_less [OF c]]
  obtain r where r: "get_loop (cap t) (slots t) (nat (k + 1)) (home (cap t) (nat (k + 1))) 0 = Inr r"
    by blast
  have "r = None"
  proof (cases r)
    case (Some v)
    with r get_loop_Some obtain e where "e \<in> set (slots t)" "e \<noteq> 0" "e AND KEY_MASK = nat (k + 1)"
      by blast
    with assms(2) obtain k' where "k' \<in> K" "0 \<le> k'" "nat (k + 1) = nat (k' + 1)"
      unfolding stored_keys_def by force
    with assms(3) have "k = k'" by linarith
    with \<open>k' \<in> K\<close> assms(5) show ?thesis by simp
  qed simp
  with r assms c show ?thesis by (simp add: TT_get_def)
qed

text \<open>
  C6. On a table built by the constructor and any sequence of \<^verbatim>\<open>set\<close> calls,
  \<^verbatim>\<open>get\<close> of an in-range key that was never passed to \<^verbatim>\<open>set\<close> returns absent
  (\<open>None\<close>): not a value, and not an error.
\<close>

theorem TT_get_never_set:
  assumes "TT_new capacity = Inr t0" and "0 \<le> k" and "k \<le> KEY_MAX" and "k \<notin> fst ` set ops"
  shows "TT_get (set_all t0 ops) k = Inr None"
proof -
  from assms(1) have "slots t0 = replicate (nat capacity) 0"
    by (auto simp: TT_new_def split: if_splits)
  then have "stored_keys {} (slots t0)" by (simp add: stored_keys_def)
  from stored_keys_set_all [OF this, of ops]
  have "stored_keys (fst ` set ops) (slots (set_all t0 ops))" by simp
  from TT_get_absent [OF wf_set_all [OF wf_TT_new [OF assms(1)]] this assms(2-4)]
  show ?thesis .
qed

theorem TT_get_never_set_witness:
  "TT_new 4 = Inr \<lparr>cap = 4, slots = [0, 0, 0, 0], size_tt = 0\<rparr> \<and>
   TT_get (set_all \<lparr>cap = 4, slots = [0, 0, 0, 0], size_tt = 0\<rparr> [(0, 5), (7, 17)]) 1 = Inr None"
proof -
  have new: "TT_new 4 = Inr \<lparr>cap = 4, slots = [0, 0, 0, 0], size_tt = 0\<rparr>"
    by (simp add: TT_new_def eval_nat_numeral)
  from TT_get_never_set [OF new, of 1 "[(0, 5), (7, 17)]"] new
  show ?thesis by (simp add: KEY_MAX_def)
qed

section \<open>The Robin-Hood ordering invariant\<close>

text \<open>
  \<open>path_occupied c sl hm d\<close>: the \<open>d\<close> slots \<open>hm, hm + 1, \<dots>\<close> (wrapping at
  \<open>c\<close>) are all occupied. \<open>robin_hood\<close>: for every occupied slot \<open>i\<close>, the path
  from the home of its incumbent up to, but not including, \<open>i\<close> is occupied.
\<close>

definition path_occupied :: "nat \<Rightarrow> nat list \<Rightarrow> nat \<Rightarrow> nat \<Rightarrow> bool" where
  "path_occupied c sl hm d \<longleftrightarrow> (\<forall>m\<in>set [0..<d]. sl ! ((hm + m) mod c) \<noteq> 0)"

definition robin_hood :: "nat \<Rightarrow> nat list \<Rightarrow> bool" where
  "robin_hood c sl \<longleftrightarrow>
     (\<forall>i\<in>set [0..<c]. sl ! i \<noteq> 0 \<longrightarrow>
        path_occupied c sl (home c ((sl ! i) AND KEY_MASK)) (slot_dist c i (sl ! i)))"

lemma dist_mod: "hm < c \<Longrightarrow> i < c \<Longrightarrow> (hm + dist c i hm) mod c = i"
  by (auto simp: dist_def)

lemma path_occupied_update:
  assumes "path_occupied c sl hm d" and "x \<noteq> 0" and "length sl = c" and "0 < c"
  shows "path_occupied c (sl[i := x]) hm d"
  unfolding path_occupied_def
proof
  fix m assume m: "m \<in> set [0..<d]"
  have "(hm + m) mod c < length sl" using assms(3,4) by simp
  then have "sl[i := x] ! ((hm + m) mod c) = (if i = (hm + m) mod c then x else sl ! ((hm + m) mod c))"
    by (simp add: nth_list_update)
  with m assms(1,2) show "sl[i := x] ! ((hm + m) mod c) \<noteq> 0"
    unfolding path_occupied_def by auto
qed

lemma path_occupied_Suc:
  assumes "path_occupied c sl hm d" and "sl ! ((hm + d) mod c) \<noteq> 0"
  shows "path_occupied c sl hm (d + 1)"
  using assms unfolding path_occupied_def
  by (auto simp: less_Suc_eq)

lemma robin_hood_update:
  assumes rh: "robin_hood c sl" and len: "length sl = c" and i: "i < c" and x: "x \<noteq> 0"
    and path: "path_occupied c sl (home c (x AND KEY_MASK)) (slot_dist c i x)"
  shows "robin_hood c (sl[i := x])"
  unfolding robin_hood_def
proof (intro ballI impI)
  fix j assume j: "j \<in> set [0..<c]" and occ: "sl[i := x] ! j \<noteq> 0"
  from i have c: "0 < c" by simp
  show "path_occupied c (sl[i := x]) (home c (sl[i := x] ! j AND KEY_MASK)) (slot_dist c j (sl[i := x] ! j))"
  proof (cases "j = i")
    case True
    with len i path x c show ?thesis by (simp add: path_occupied_update)
  next
    case False
    with occ have "sl ! j \<noteq> 0" by simp
    with rh j have "path_occupied c sl (home c (sl ! j AND KEY_MASK)) (slot_dist c j (sl ! j))"
      unfolding robin_hood_def by blast
    with False len x c show ?thesis by (simp add: path_occupied_update)
  qed
qed

lemma set_loop_robin_hood:
  assumes "set_loop c sl kp i dib entry = Inr (sl', ex)"
    and "length sl = c" and "i < c" and "robin_hood c sl" and "entry \<noteq> 0"
    and "dib < c \<longrightarrow> dib = slot_dist c i entry \<and> path_occupied c sl (home c (entry AND KEY_MASK)) dib"
  shows "robin_hood c sl'"
  using assms
proof (induction c sl kp i dib entry arbitrary: sl' ex rule: set_loop.induct)
  case (1 c sl kp i dib entry)
  note len = \<open>length sl = c\<close> and i = \<open>i < c\<close> and rh = \<open>robin_hood c sl\<close> and ne = \<open>entry \<noteq> 0\<close>
  from i have c: "0 < c" by simp
  show ?case
  proof (cases rule: set_loop_cases [of dib c sl kp i entry])
    case exhausted
    with "1.prems" show ?thesis by simp
  next
    case oob
    with "1.prems" show ?thesis by simp
  next
    case inserted
    with "1.prems" have "sl' = sl[i := entry]"
      and "path_occupied c sl (home c (entry AND KEY_MASK)) (slot_dist c i entry)" by auto
    with robin_hood_update [OF rh len i ne] show ?thesis by simp
  next
    case updated
    with "1.prems" have "sl' = sl[i := entry]"
      and "path_occupied c sl (home c (entry AND KEY_MASK)) (slot_dist c i entry)" by auto
    with robin_hood_update [OF rh len i ne] show ?thesis by simp
  next
    case swap
    let ?e = "sl ! i"
    from swap "1.prems" have path: "path_occupied c sl (home c (entry AND KEY_MASK)) (slot_dist c i entry)"
      by auto
    have rh1: "robin_hood c (sl[i := entry])"
      by (rule robin_hood_update [OF rh len i ne path])
    from rh i swap(3) have pe: "path_occupied c sl (home c (?e AND KEY_MASK)) (slot_dist c i ?e)"
      unfolding robin_hood_def by simp
    have at_i: "(home c (?e AND KEY_MASK) + slot_dist c i ?e) mod c = i"
      unfolding slot_dist_def by (rule dist_mod [OF home_less [OF c] i])
    have pe1: "path_occupied c (sl[i := entry]) (home c (?e AND KEY_MASK)) (slot_dist c i ?e + 1)"
    proof (rule path_occupied_Suc)
      show "path_occupied c (sl[i := entry]) (home c (?e AND KEY_MASK)) (slot_dist c i ?e)"
        by (rule path_occupied_update [OF pe ne len c])
      show "sl[i := entry] ! ((home c (?e AND KEY_MASK) + slot_dist c i ?e) mod c) \<noteq> 0"
        using at_i len i ne by simp
    qed
    have d1: "slot_dist c i ?e + 1 < c \<longrightarrow>
        slot_dist c i ?e + 1 = slot_dist c (advance c i) ?e"
      unfolding slot_dist_def using dist_advance [OF home_less [OF c]] by auto
    show ?thesis
    proof (rule "1.IH"(1))
      show "set_loop c (sl[i := entry]) kp (advance c i)
          (dist c i (home c (?e AND KEY_MASK)) + 1) ?e = Inr (sl', ex)"
        using swap "1.prems" by simp
      show "dist c i (home c (?e AND KEY_MASK)) + 1 < c \<longrightarrow>
          dist c i (home c (?e AND KEY_MASK)) + 1 = slot_dist c (advance c i) ?e \<and>
          path_occupied c (sl[i := entry]) (home c (?e AND KEY_MASK))
            (dist c i (home c (?e AND KEY_MASK)) + 1)"
        using d1 pe1 by (simp add: slot_dist_def)
    qed (use swap len i rh1 advance_less in auto)
  next
    case pass
    from pass "1.prems" have eq: "dib = slot_dist c i entry"
      and path: "path_occupied c sl (home c (entry AND KEY_MASK)) dib"
      by auto
    have at_i: "(home c (entry AND KEY_MASK) + dib) mod c = i"
      unfolding eq slot_dist_def by (rule dist_mod [OF home_less [OF c] i])
    have p1: "path_occupied c sl (home c (entry AND KEY_MASK)) (dib + 1)"
      by (rule path_occupied_Suc [OF path]) (use at_i pass in simp)
    have d1: "dib + 1 < c \<longrightarrow> dib + 1 = slot_dist c (advance c i) entry"
      unfolding eq slot_dist_def using dist_advance [OF home_less [OF c]] by auto
    show ?thesis
    proof (rule "1.IH"(2))
      show "set_loop c sl kp (advance c i) (dib + 1) entry = Inr (sl', ex)"
        using pass "1.prems" by simp
      show "dib + 1 < c \<longrightarrow> dib + 1 = slot_dist c (advance c i) entry \<and>
          path_occupied c sl (home c (entry AND KEY_MASK)) (dib + 1)"
        using d1 p1 by simp
    qed (use pass len i rh ne advance_less in auto)
  qed
qed

lemma robin_hood_empty: "robin_hood c (replicate c 0)"
  by (simp add: robin_hood_def)

lemma robin_hood_TT_set:
  assumes wf: "wf_TT t" and rh: "robin_hood (cap t) (slots t)" and set: "TT_set t key val = Inr t'"
  shows "robin_hood (cap t') (slots t')"
proof -
  let ?kp = "nat (key + 1)"
  let ?entry = "?kp OR push_bit VAL_SHIFT (nat val)"
  from set obtain sl ex where r: "0 \<le> key" "key \<le> KEY_MAX"
    and s: "set_loop (cap t) (slots t) ?kp (home (cap t) ?kp) 0 ?entry = Inr (sl, ex)"
    and t': "t' = t\<lparr>slots := sl, size_tt := (if ex = Inserted then size_tt t + 1 else size_tt t)\<rparr>"
    by (rule TT_set_Inr)
  from wf have c: "0 < cap t" and len: "length (slots t) = cap t"
    by (simp_all add: wf_TT_def)
  from key_plus_bound [OF r] have kp: "0 < ?kp" "?kp < 2 ^ 50" by simp_all
  have key: "?entry AND KEY_MASK = ?kp" by (rule entry_key [OF kp(2)])
  have ne: "?entry \<noteq> 0" by (rule entry_nonzero [OF kp(1)])
  have start: "0 < cap t \<longrightarrow> 0 = slot_dist (cap t) (home (cap t) ?kp) ?entry \<and>
      path_occupied (cap t) (slots t) (home (cap t) (?entry AND KEY_MASK)) 0"
    by (simp add: slot_dist_def key dist_def path_occupied_def)
  from set_loop_robin_hood [OF s len home_less [OF c] rh ne start] t'
  show ?thesis by simp
qed

lemma robin_hood_set_step:
  assumes "wf_TT t" and "robin_hood (cap t) (slots t)"
  shows "robin_hood (cap (set_step t kv)) (slots (set_step t kv))"
  using assms by (auto simp: set_step_def split: sum.splits intro: robin_hood_TT_set)

lemma robin_hood_set_all:
  "wf_TT t \<Longrightarrow> robin_hood (cap t) (slots t) \<Longrightarrow>
   robin_hood (cap (set_all t ops)) (slots (set_all t ops))"
  unfolding set_all_def
  by (induction ops arbitrary: t) (simp_all add: wf_set_step robin_hood_set_step)

text \<open>Home slots of two small keys in a table of capacity 4, by evaluating the hash.\<close>

lemma home_4_2: "home 4 2 = 2" and home_4_4: "home 4 4 = 2"
    by (simp_all add: home_def hash64_def mask64_def Let_def)

text \<open>
  C8. After the constructor and any sequence of \<^verbatim>\<open>set\<close> calls, the table has
  the Robin-Hood ordering property: for every occupied slot \<open>i\<close>, every slot on
  the wrap-aware path from the home of the incumbent at \<open>i\<close> up to \<open>i\<close> is
  occupied.
\<close>

theorem robin_hood_after_sets:
  assumes "TT_new capacity = Inr t0"
  shows "robin_hood (cap (set_all t0 ops)) (slots (set_all t0 ops))"
proof -
  from assms have "robin_hood (cap t0) (slots t0)"
    by (auto simp: TT_new_def robin_hood_empty split: if_splits)
  with wf_TT_new [OF assms] show ?thesis by (rule robin_hood_set_all)
qed

theorem robin_hood_after_sets_witness:
  "TT_new 4 = Inr \<lparr>cap = 4, slots = [0, 0, 0, 0], size_tt = 0\<rparr> \<and>
   set_all \<lparr>cap = 4, slots = [0, 0, 0, 0], size_tt = 0\<rparr> [(1, 5), (3, 17)] =
     \<lparr>cap = 4, slots = [0, 0, 5629499534213122, 19140298416324612], size_tt = 2\<rparr> \<and>
   robin_hood 4 [0, 0, 5629499534213122, 19140298416324612]"
proof -
  have new: "TT_new 4 = Inr \<lparr>cap = 4, slots = [0, 0, 0, 0], size_tt = 0\<rparr>"
    by (simp add: TT_new_def eval_nat_numeral)
  have run: "set_all \<lparr>cap = 4, slots = [0, 0, 0, 0], size_tt = 0\<rparr> [(1, 5), (3, 17)] =
     \<lparr>cap = 4, slots = [0, 0, 5629499534213122, 19140298416324612], size_tt = 2\<rparr>"
    by (simp add: set_all_def set_step_def TT_set_def KEY_MAX_def home_4_2 home_4_4 set_loop.simps
        advance_def dist_def KEY_MASK_def VAL_SHIFT_def)
  from robin_hood_after_sets [OF new, of "[(1, 5), (3, 17)]"] new run
  show ?thesis by simp
qed

section \<open>Overwriting a key\<close>

lemma advance_mod: "i < c \<Longrightarrow> advance c i = (i + 1) mod c"
  by (auto simp: advance_def)

lemma advance_plus: "i < c \<Longrightarrow> (advance c i + m) mod c = (i + (m + 1)) mod c"
  by (simp add: advance_mod mod_simps)

lemma step_away:
  assumes "i < c" and "m + 1 < c"
  shows "(i + (m + 1)) mod c \<noteq> (i::nat)"
proof (cases "i + (m + 1) < c")
  case True
  then have "(i + (m + 1)) mod c = i + (m + 1)" by (rule mod_less)
  then show ?thesis by simp
next
  case False
  then have "(i + (m + 1)) mod c = (i + (m + 1) - c) mod c" by (simp add: le_mod_geq)
  also have "\<dots> = i + (m + 1) - c" using assms by simp
  finally show ?thesis using assms False by simp
qed

text \<open>
  Frame: when an empty slot lies \<open>n\<close> steps ahead of the probe index, the
  traversal writes only to the slots it walks before it gets there.
\<close>

lemma set_loop_frame:
  assumes "set_loop c sl kp i dib entry = Inr (sl', ex)"
    and "length sl = c" and "i < c" and "sl ! ((i + n) mod c) = 0"
    and "\<forall>m\<le>n. (i + m) mod c \<noteq> j"
  shows "sl' ! j = sl ! j"
  using assms
proof (induction c sl kp i dib entry arbitrary: sl' ex n rule: set_loop.induct)
  case (1 c sl kp i dib entry)
  note len = \<open>length sl = c\<close> and i = \<open>i < c\<close> and free = \<open>sl ! ((i + n) mod c) = 0\<close>
    and away = \<open>\<forall>m\<le>n. (i + m) mod c \<noteq> j\<close>
  from away i have ji: "j \<noteq> i" by (auto dest: spec [of _ 0])
  show ?case
  proof (cases rule: set_loop_cases [of dib c sl kp i entry])
    case exhausted
    with "1.prems" show ?thesis by simp
  next
    case oob
    with "1.prems" show ?thesis by simp
  next
    case inserted
    with "1.prems" ji show ?thesis by auto
  next
    case updated
    with "1.prems" ji show ?thesis by auto
  next
    case swap
    from swap(3) free i obtain k where n: "n = k + 1" by (cases n) auto
    have free': "sl[i := entry] ! ((advance c i + k) mod c) = 0"
    proof -
      have "(advance c i + k) mod c = (i + n) mod c" using n i by (simp add: advance_plus)
      moreover from swap(3) free have "(i + n) mod c \<noteq> i" by auto
      ultimately show ?thesis using free by simp
    qed
    have away': "\<forall>m\<le>k. (advance c i + m) mod c \<noteq> j"
      using away n i by (auto simp: advance_plus)
    have "sl' ! j = sl[i := entry] ! j"
    proof (rule "1.IH"(1) [OF _ _ _ _ _ _ _ _ free' away'])
      show "set_loop c (sl[i := entry]) kp (advance c i)
          (dist c i (home c (sl ! i AND KEY_MASK)) + 1) (sl ! i) = Inr (sl', ex)"
        using swap "1.prems" by simp
    qed (use swap len i advance_less in auto)
    with ji show ?thesis by simp
  next
    case pass
    from pass(3) free i obtain k where n: "n = k + 1" by (cases n) auto
    have free': "sl ! ((advance c i + k) mod c) = 0"
      using n i free by (simp add: advance_plus)
    have away': "\<forall>m\<le>k. (advance c i + m) mod c \<noteq> j"
      using away n i by (auto simp: advance_plus)
    show ?thesis
    proof (rule "1.IH"(2) [OF _ _ _ _ _ _ _ _ free' away'])
      show "set_loop c sl kp (advance c i) (dib + 1) entry = Inr (sl', ex)"
        using pass "1.prems" by simp
    qed (use pass len i advance_less in auto)
  qed
qed


text \<open>
  If \<^verbatim>\<open>get\<close> finds the key, \<^verbatim>\<open>set\<close> walks the same slots, overwrites the slot
  that holds it, and \<^verbatim>\<open>get\<close> then returns the new value.
\<close>

lemma get_found_set_updates:
  assumes "get_loop c sl kp i dib = Inr (Some v)"
    and "length sl = c" and "entry AND KEY_MASK = kp" and "entry \<noteq> 0"
  shows "\<exists>p<c. sl ! p \<noteq> 0 \<and> (sl ! p) AND KEY_MASK = kp \<and>
           set_loop c sl kp i dib entry = Inr (sl[p := entry], Updated) \<and>
           get_loop c (sl[p := entry]) kp i dib = Inr (Some (drop_bit VAL_SHIFT entry))"
  using assms
proof (induction c sl kp i dib rule: get_loop.induct)
  case (1 c sl kp i dib)
  note len = \<open>length sl = c\<close> and key = \<open>entry AND KEY_MASK = kp\<close> and ne = \<open>entry \<noteq> 0\<close>
  show ?case
  proof (cases rule: get_loop_cases [of dib c sl kp i])
    case exhausted
    with "1.prems" show ?thesis by simp
  next
    case oob
    with "1.prems" show ?thesis by simp
  next
    case empty
    with "1.prems" show ?thesis by simp
  next
    case found
    have "set_loop c sl kp i dib entry = Inr (sl[i := entry], Updated)"
      using found by (subst set_loop.simps) simp
    moreover have "get_loop c (sl[i := entry]) kp i dib = Inr (Some (drop_bit VAL_SHIFT entry))"
      using found key ne by (subst get_loop.simps) simp
    ultimately show ?thesis using found len by auto
  next
    case richer
    with "1.prems" show ?thesis by simp
  next
    case pass
    with "1.prems" have "get_loop c sl kp (advance c i) (dib + 1) = Inr (Some v)" by simp
    from "1.IH" [OF _ _ _ _ _ this len key ne] pass
    obtain p where p: "p < c" "sl ! p \<noteq> 0" "(sl ! p) AND KEY_MASK = kp"
      and s: "set_loop c sl kp (advance c i) (dib + 1) entry = Inr (sl[p := entry], Updated)"
      and g: "get_loop c (sl[p := entry]) kp (advance c i) (dib + 1) = Inr (Some (drop_bit VAL_SHIFT entry))"
      by auto
    from p pass have pi: "p \<noteq> i" by auto
    have "set_loop c sl kp i dib entry = Inr (sl[p := entry], Updated)"
      using pass s by (subst set_loop.simps) simp
    moreover have "get_loop c (sl[p := entry]) kp i dib = Inr (Some (drop_bit VAL_SHIFT entry))"
      using pass g pi by (subst get_loop.simps) simp
    ultimately show ?thesis using p by auto
  qed
qed

text \<open>
  If an empty slot lies ahead within the probe budget, \<^verbatim>\<open>set\<close> places the key,
  and \<^verbatim>\<open>get\<close> finds it afterwards.
\<close>

lemma set_then_get:
  assumes "set_loop c sl kp i dib entry = Inr (sl', ex)"
    and "length sl = c" and "i < c" and "entry AND KEY_MASK = kp" and "entry \<noteq> 0"
    and "n + dib < c" and "sl ! ((i + n) mod c) = 0"
  shows "get_loop c sl' kp i dib = Inr (Some (drop_bit VAL_SHIFT entry))"
  using assms
proof (induction c sl kp i dib entry arbitrary: sl' ex n rule: set_loop.induct)
  case (1 c sl kp i dib entry)
  note len = \<open>length sl = c\<close> and i = \<open>i < c\<close> and key = \<open>entry AND KEY_MASK = kp\<close>
    and ne = \<open>entry \<noteq> 0\<close> and budget = \<open>n + dib < c\<close> and free = \<open>sl ! ((i + n) mod c) = 0\<close>
  have len': "length sl' = c"
    using set_loop_Inr [OF len i, of kp dib entry] "1.prems"(1) by auto
  show ?case
  proof (cases rule: set_loop_cases [of dib c sl kp i entry])
    case exhausted
    with budget show ?thesis by simp
  next
    case oob
    with "1.prems" show ?thesis by simp
  next
    case inserted
    with "1.prems" have "sl' = sl[i := entry]" by simp
    with inserted key ne show ?thesis by (subst get_loop.simps) simp
  next
    case updated
    with "1.prems" have "sl' = sl[i := entry]" by simp
    with updated key ne show ?thesis by (subst get_loop.simps) simp
  next
    case swap
    from swap(3) free i obtain k where n: "n = k + 1" by (cases n) auto
    have free': "sl[i := entry] ! ((advance c i + k) mod c) = 0"
    proof -
      have "(advance c i + k) mod c = (i + n) mod c" using n i by (simp add: advance_plus)
      moreover from swap(3) free have "(i + n) mod c \<noteq> i" by auto
      ultimately show ?thesis using free by simp
    qed
    have away: "\<forall>m\<le>k. (advance c i + m) mod c \<noteq> i"
      using step_away [OF i] n budget i by (auto simp: advance_plus)
    have "set_loop c (sl[i := entry]) kp (advance c i)
        (dist c i (home c (sl ! i AND KEY_MASK)) + 1) (sl ! i) = Inr (sl', ex)"
      using swap "1.prems" by simp
    from set_loop_frame [OF this _ advance_less [OF i] free' away] len i
    have "sl' ! i = entry" by simp
    with swap(1) len' i key ne show ?thesis by (subst get_loop.simps) simp
  next
    case pass
    from pass(3) free i obtain k where n: "n = k + 1" by (cases n) auto
    have free': "sl ! ((advance c i + k) mod c) = 0"
      using n i free by (simp add: advance_plus)
    have away: "\<forall>m\<le>k. (advance c i + m) mod c \<noteq> i"
      using step_away [OF i] n budget i by (auto simp: advance_plus)
    have rest: "set_loop c sl kp (advance c i) (dib + 1) entry = Inr (sl', ex)"
      using pass "1.prems" by simp
    from set_loop_frame [OF rest len advance_less [OF i] free' away]
    have same: "sl' ! i = sl ! i" .
    have "get_loop c sl' kp (advance c i) (dib + 1) = Inr (Some (drop_bit VAL_SHIFT entry))"
    proof (rule "1.IH"(2) [OF _ _ _ _ _ rest len advance_less [OF i] key ne _ free'])
      show "k + (dib + 1) < c" using n budget by simp
    qed (use pass in auto)
    with pass same len' i show ?thesis by (subst get_loop.simps) simp
  qed
qed


lemma dist_less: "hm < c \<Longrightarrow> i < c \<Longrightarrow> dist c i hm < c"
  by (auto simp: dist_def)

lemma TT_set_succeeds:
  assumes "wf_TT t" and "0 \<le> key" and "key \<le> KEY_MAX" and "0 \<le> val" and "val < 2 ^ 14"
  shows "\<exists>sl ex.
    set_loop (cap t) (slots t) (nat (key + 1)) (home (cap t) (nat (key + 1))) 0
      (nat (key + 1) OR push_bit VAL_SHIFT (nat val)) = Inr (sl, ex) \<and> length sl = cap t \<and>
    TT_set t key val =
      Inr (t\<lparr>slots := sl, size_tt := (if ex = Inserted then size_tt t + 1 else size_tt t)\<rparr>)"
proof -
  from assms(1) have c: "0 < cap t" and len: "length (slots t) = cap t"
    by (simp_all add: wf_TT_def)
  from set_loop_Inr [OF len home_less [OF c]]
  obtain sl ex where
    "set_loop (cap t) (slots t) (nat (key + 1)) (home (cap t) (nat (key + 1))) 0
      (nat (key + 1) OR push_bit VAL_SHIFT (nat val)) = Inr (sl, ex)" "length sl = cap t"
    by blast
  with assms c show ?thesis
    by (cases ex) (simp_all add: TT_set_def Let_def)
qed

text \<open>
  C7. On a well-formed table with at least one empty slot, for an in-range key
  and 14-bit values \<open>v1\<close>, \<open>v2\<close>: \<^verbatim>\<open>set(k, v1)\<close> and \<^verbatim>\<open>set(k, v2)\<close> both return,
  \<^verbatim>\<open>get(k)\<close> then returns \<open>v2\<close>, and the second \<^verbatim>\<open>set\<close> leaves the size field
  unchanged.
\<close>

theorem set_twice_get:
  assumes wf: "wf_TT t" and free: "0 \<in> set (slots t)"
    and k: "0 \<le> k" "k \<le> KEY_MAX" and v1: "0 \<le> v1" "v1 < 2 ^ 14" and v2: "0 \<le> v2" "v2 < 2 ^ 14"
  shows "\<exists>t1 t2. TT_set t k v1 = Inr t1 \<and> TT_set t1 k v2 = Inr t2 \<and>
           TT_get t2 k = Inr (Some v2) \<and> size_tt t2 = size_tt t1"
proof -
  let ?c = "cap t" and ?kp = "nat (k + 1)"
  let ?h = "home ?c ?kp"
  let ?e1 = "?kp OR push_bit VAL_SHIFT (nat v1)" and ?e2 = "?kp OR push_bit VAL_SHIFT (nat v2)"
  from wf have c: "0 < ?c" and len: "length (slots t) = ?c"
    by (simp_all add: wf_TT_def)
  from key_plus_bound [OF k] have kp: "0 < ?kp" "?kp < 2 ^ 50" by simp_all
  have key1: "?e1 AND KEY_MASK = ?kp" and key2: "?e2 AND KEY_MASK = ?kp"
    by (rule entry_key [OF kp(2)])+
  have ne1: "?e1 \<noteq> 0" and ne2: "?e2 \<noteq> 0"
    by (rule entry_nonzero [OF kp(1)])+
  from TT_set_succeeds [OF wf k v1] obtain sl1 ex1 where
    s1: "set_loop ?c (slots t) ?kp ?h 0 ?e1 = Inr (sl1, ex1)" and len1: "length sl1 = ?c"
    and t1: "TT_set t k v1 =
      Inr (t\<lparr>slots := sl1, size_tt := (if ex1 = Inserted then size_tt t + 1 else size_tt t)\<rparr>)"
    by blast
  let ?t1 = "t\<lparr>slots := sl1, size_tt := (if ex1 = Inserted then size_tt t + 1 else size_tt t)\<rparr>"
  from free len obtain f where f: "f < ?c" "slots t ! f = 0"
    by (auto simp: in_set_conv_nth)
  have h: "?h < ?c" by (rule home_less [OF c])
  have ahead: "slots t ! ((?h + dist ?c f ?h) mod ?c) = 0"
    using dist_mod [OF h f(1)] f(2) by simp
  have budget: "dist ?c f ?h + 0 < ?c"
    using dist_less [OF h f(1)] by simp
  have g1: "get_loop ?c sl1 ?kp ?h 0 = Inr (Some (drop_bit VAL_SHIFT ?e1))"
    by (rule set_then_get [OF s1 len h key1 ne1 budget ahead])
  from get_found_set_updates [OF g1 len1 key2 ne2]
  obtain p where
    s2: "set_loop ?c sl1 ?kp ?h 0 ?e2 = Inr (sl1[p := ?e2], Updated)"
    and g2: "get_loop ?c (sl1[p := ?e2]) ?kp ?h 0 = Inr (Some (drop_bit VAL_SHIFT ?e2))"
    by blast
  let ?t2 = "?t1\<lparr>slots := sl1[p := ?e2]\<rparr>"
  have t2: "TT_set ?t1 k v2 = Inr ?t2"
    using k v2 c s2 by (simp add: TT_set_def)
  have "TT_get ?t2 k = Inr (Some v2)"
    using k v2 c g2 entry_val [OF kp(2), of "nat v2"] by (simp add: TT_get_def)
  with t1 t2 show ?thesis by auto
qed

theorem set_twice_get_witness:
  "TT_set \<lparr>cap = 4, slots = [0, 0, 0, 0], size_tt = 0\<rparr> 1 5 =
     Inr \<lparr>cap = 4, slots = [0, 0, 5629499534213122, 0], size_tt = 1\<rparr> \<and>
   TT_set \<lparr>cap = 4, slots = [0, 0, 5629499534213122, 0], size_tt = 1\<rparr> 1 9 =
     Inr \<lparr>cap = 4, slots = [0, 0, 10133099161583618, 0], size_tt = 1\<rparr> \<and>
   TT_get \<lparr>cap = 4, slots = [0, 0, 10133099161583618, 0], size_tt = 1\<rparr> 1 = Inr (Some 9)"
proof -
  let ?t0 = "\<lparr>cap = 4, slots = [0, 0, 0, 0], size_tt = 0\<rparr>"
  have a: "TT_set ?t0 1 5 = Inr \<lparr>cap = 4, slots = [0, 0, 5629499534213122, 0], size_tt = 1\<rparr>"
    by (simp add: TT_set_def KEY_MAX_def home_4_2 set_loop.simps VAL_SHIFT_def)
  have b: "TT_set \<lparr>cap = 4, slots = [0, 0, 5629499534213122, 0], size_tt = 1\<rparr> 1 9 =
     Inr \<lparr>cap = 4, slots = [0, 0, 10133099161583618, 0], size_tt = 1\<rparr>"
    by (simp add: TT_set_def KEY_MAX_def home_4_2 set_loop.simps VAL_SHIFT_def KEY_MASK_def)
  have "wf_TT ?t0" "0 \<in> set (slots ?t0)" by (simp_all add: wf_TT_def)
  from set_twice_get [OF this, of 1 5 9] a b
  have "TT_get \<lparr>cap = 4, slots = [0, 0, 10133099161583618, 0], size_tt = 1\<rparr> 1 = Inr (Some 9)"
    by (simp add: KEY_MAX_def)
  with a b show ?thesis by simp
qed

section \<open>The board codec\<close>

text \<open>
  Move sequences are strings of digit characters. Column indices, heights, plies
  and shift amounts are natural numbers; patterns, column codes and the board
  code are Python integers. The optional parameters \<^verbatim>\<open>width\<close> and \<^verbatim>\<open>height\<close> are
  explicit arguments here; every call in the source uses the defaults 7 and 6.
\<close>

definition is_digit :: "char \<Rightarrow> bool" where
  "is_digit ch \<longleftrightarrow> (48::nat) \<le> of_char ch \<and> of_char ch \<le> (57::nat)"

definition col_of :: "char \<Rightarrow> nat" where
  "col_of ch = of_char ch - 48"

subsection \<open>\<^verbatim>\<open>moveseq_to_board_42\<close>\<close>

fun moveseq_to_board_42_loop ::
  "nat \<Rightarrow> nat \<Rightarrow> nat \<Rightarrow> char list list \<Rightarrow> nat list \<Rightarrow> string \<Rightarrow> error + char list list" where
  "moveseq_to_board_42_loop width height ply board heights [] = Inr board"
| "moveseq_to_board_42_loop width height ply board heights (ch # rest) =
     (if \<not> is_digit ch then Inl InvalidMoveChar
      else if \<not> col_of ch < width then Inl MoveOutOfRange
      else if heights ! col_of ch \<ge> height then Inl ColumnFull
      else
        (let col = col_of ch;
             row_from_bottom = heights ! col;
             row = height - 1 - row_from_bottom;
             stone = (if ply mod 2 = 0 then CHR ''x'' else CHR ''o'')
         in moveseq_to_board_42_loop width height (ply + 1)
              (board[row := (board ! row)[col := stone]])
              (heights[col := heights ! col + 1]) rest))"

definition join_rows :: "nat \<Rightarrow> char list list \<Rightarrow> string" where
  "join_rows height board = concat (map (\<lambda>r. board ! r) [0..<height])"

definition empty_board :: "nat \<Rightarrow> nat \<Rightarrow> char list list" where
  "empty_board width height = replicate height (replicate width CHR ''.'')"

definition moveseq_to_board_42 :: "string \<Rightarrow> nat \<Rightarrow> nat \<Rightarrow> error + string" where
  "moveseq_to_board_42 moveseq width height =
     (case moveseq_to_board_42_loop width height 0 (empty_board width height) (replicate width 0) moveseq of
        Inl e \<Rightarrow> Inl e
      | Inr board \<Rightarrow> Inr (join_rows height board))"

subsection \<open>\<^verbatim>\<open>moveseq_to_board49\<close>\<close>

fun moveseq_to_board49_loop ::
  "nat \<Rightarrow> nat \<Rightarrow> nat \<Rightarrow> nat list \<Rightarrow> int list \<Rightarrow> string \<Rightarrow> error + nat list \<times> int list" where
  "moveseq_to_board49_loop width height ply heights patterns [] = Inr (heights, patterns)"
| "moveseq_to_board49_loop width height ply heights patterns (ch # rest) =
     (if \<not> is_digit ch then Inl InvalidMoveChar
      else if \<not> col_of ch < width then Inl MoveOutOfRange
      else if heights ! col_of ch \<ge> height then Inl ColumnFull
      else
        (let col = col_of ch;
             h = heights ! col
         in moveseq_to_board49_loop width height (ply + 1) (heights[col := h + 1])
              (if ply AND 1 = 1 then patterns[col := (patterns ! col) OR push_bit h 1]
               else patterns) rest))"

definition col_code_of :: "nat \<Rightarrow> int \<Rightarrow> int" where
  "col_code_of h pattern = (push_bit h 1 - 1) + (pattern AND (push_bit h 1 - 1))"

definition pack_cols :: "nat list \<Rightarrow> int list \<Rightarrow> nat \<Rightarrow> int" where
  "pack_cols heights patterns width =
     fold (\<lambda>col board49. board49 OR push_bit (7 * col) (col_code_of (heights ! col) (patterns ! col)))
       [0..<width] 0"

definition moveseq_to_board49 :: "string \<Rightarrow> nat \<Rightarrow> nat \<Rightarrow> error + int" where
  "moveseq_to_board49 moveseq width height =
     (if (width \<noteq> 7 \<or> height \<noteq> 6) \<and> \<not> (1 \<le> width \<and> 1 \<le> height \<and> height \<le> 63)
        then Inl UnsupportedSize
      else case moveseq_to_board49_loop width height 0 (replicate width 0) (replicate width 0) moveseq of
             Inl e \<Rightarrow> Inl e
           | Inr (heights, patterns) \<Rightarrow> Inr (pack_cols heights patterns width))"

subsection \<open>\<^verbatim>\<open>board49_to_board42\<close>\<close>

text \<open>\<^verbatim>\<open>int.bit_length()\<close>: the number of bits of the absolute value.\<close>

function bit_length :: "int \<Rightarrow> nat" where
  "bit_length n = (if n = 0 then 0 else Suc (bit_length (\<bar>n\<bar> div 2)))"
  by pat_completeness auto
termination
  by (relation "measure (\<lambda>n. nat \<bar>n\<bar>)") auto

declare bit_length.simps [simp del]

definition fill_col :: "nat \<Rightarrow> nat \<Rightarrow> int \<Rightarrow> nat \<Rightarrow> char list list \<Rightarrow> char list list" where
  "fill_col height col pattern h board =
     fold (\<lambda>row_from_bottom bd.
             bd[height - 1 - row_from_bottom :=
                  (bd ! (height - 1 - row_from_bottom))
                    [col := (if (drop_bit row_from_bottom pattern) AND 1 \<noteq> 0 then CHR ''o'' else CHR ''x'')]])
       [0..<h] board"

fun board49_to_board42_loop :: "int \<Rightarrow> nat \<Rightarrow> char list list \<Rightarrow> nat list \<Rightarrow> error + char list list" where
  "board49_to_board42_loop board49 height board [] = Inr board"
| "board49_to_board42_loop board49 height board (col # cols) =
     (let col_code = (drop_bit (7 * col) board49) AND 127;
          max_code = push_bit (height + 1) 1 - 2
      in if col_code > max_code then Inl InvalidColCode
         else
           (let h = bit_length (col_code + 1) - 1
            in if h > height then Inl InvalidHeight
               else
                 (let base = push_bit h 1 - 1;
                      pattern = col_code - base
                  in board49_to_board42_loop board49 height (fill_col height col pattern h board) cols)))"

definition board49_to_board42 :: "int \<Rightarrow> nat \<Rightarrow> nat \<Rightarrow> error + string" where
  "board49_to_board42 board49 width height =
     (if board49 < 0 then Inl NegativeBoard
      else case board49_to_board42_loop board49 height (empty_board width height) [0..<width] of
             Inl e \<Rightarrow> Inl e
           | Inr board \<Rightarrow> Inr (join_rows height board))"

subsection \<open>Column codes\<close>

lemma bit_length_pow2:
  "2 ^ k \<le> n \<Longrightarrow> n < 2 ^ (k + 1) \<Longrightarrow> bit_length n = k + 1"
proof (induction k arbitrary: n)
  case 0
  then have "n = 1" by simp
  then show ?case by (simp add: bit_length.simps)
next
  case (Suc k)
  then have pos: "0 < n" by (smt (verit) zero_less_power)
  from Suc.prems have "2 ^ k \<le> n div 2" "n div 2 < 2 ^ (k + 1)" by simp_all
  then have "bit_length (n div 2) = k + 1" by (rule Suc.IH)
  with pos show ?case by (subst bit_length.simps) simp
qed

lemma col_code_of_eq:
  assumes "0 \<le> p" and "p < 2 ^ h"
  shows "col_code_of h p = 2 ^ h - 1 + p"
proof -
  have "p AND (2 ^ h - 1) = take_bit h p"
    by (simp add: take_bit_eq_mask mask_eq_exp_minus_1)
  also have "\<dots> = p" using assms by (simp add: take_bit_int_eq_self)
  finally show ?thesis by (simp add: col_code_of_def push_bit_eq_mult)
qed

lemma col_code_of_bounds:
  assumes "0 \<le> p" and "p < 2 ^ h" and "h \<le> 6"
  shows "0 \<le> col_code_of h p" and "col_code_of h p \<le> 126"
proof -
  have "(2::int) ^ h \<le> 2 ^ 6" using assms(3) by (intro power_increasing) simp_all
  with assms show "0 \<le> col_code_of h p" and "col_code_of h p \<le> 126"
    by (simp_all add: col_code_of_eq)
qed

lemma decode_height:
  assumes "0 \<le> p" and "p < 2 ^ h"
  shows "bit_length (col_code_of h p + 1) - 1 = h"
proof -
  have "bit_length (2 ^ h + p) = h + 1"
    using assms by (intro bit_length_pow2) simp_all
  then show ?thesis using assms by (simp add: col_code_of_eq)
qed

lemma decode_pattern:
  assumes "0 \<le> p" and "p < 2 ^ h"
  shows "col_code_of h p - (push_bit h 1 - 1) = p"
  using assms by (simp add: col_code_of_eq push_bit_eq_mult)

subsection \<open>Packing seven-bit column codes\<close>

lemma pack_cols_Suc:
  "pack_cols hs ps (Suc w) =
     pack_cols hs ps w OR push_bit (7 * w) (col_code_of (hs ! w) (ps ! w))"
  by (simp add: pack_cols_def)

lemma pack_cols_props:
  assumes "\<forall>c<w. 0 \<le> col_code_of (hs ! c) (ps ! c) \<and> col_code_of (hs ! c) (ps ! c) < 128"
  shows "0 \<le> pack_cols hs ps w \<and> pack_cols hs ps w < 2 ^ (7 * w) \<and>
         (\<forall>c<w. (drop_bit (7 * c) (pack_cols hs ps w)) AND 127 = col_code_of (hs ! c) (ps ! c))"
  using assms
proof (induction w)
  case 0
  show ?case by (simp add: pack_cols_def)
next
  case (Suc w)
  let ?P = "pack_cols hs ps w" and ?x = "col_code_of (hs ! w) (ps ! w)"
  from Suc have P: "0 \<le> ?P" "?P < 2 ^ (7 * w)"
    and ext: "\<forall>c<w. (drop_bit (7 * c) ?P) AND 127 = col_code_of (hs ! c) (ps ! c)"
    and x: "0 \<le> ?x" "?x < 128" by auto
  have m127: "\<And>y::int. y AND 127 = take_bit 7 y"
    by (simp add: take_bit_eq_mask mask_eq_exp_minus_1)
  have tx: "take_bit 7 ?x = ?x" using x by (simp add: take_bit_int_eq_self)
  have tP: "take_bit (7 * w) ?P = ?P" using P by (simp add: take_bit_int_eq_self)
  have nonneg: "0 \<le> ?P OR push_bit (7 * w) ?x" using P x by simp
  have "push_bit (7 * w) ?x < 2 ^ (7 * Suc w)"
  proof -
    have "push_bit (7 * w) ?x = ?x * 2 ^ (7 * w)" by (simp add: push_bit_eq_mult)
    also have "\<dots> < 128 * 2 ^ (7 * w)" using x by simp
    also have "\<dots> = 2 ^ (7 * Suc w)" by (simp add: power_add)
    finally show ?thesis .
  qed
  moreover have "?P < 2 ^ (7 * Suc w)"
  proof -
    have "(2::int) ^ (7 * w) \<le> 2 ^ (7 * Suc w)" by (intro power_increasing) simp_all
    with P(2) show ?thesis by linarith
  qed
  ultimately have upper: "?P OR push_bit (7 * w) ?x < 2 ^ (7 * Suc w)"
    using P x by (intro OR_upper) simp_all
  have cols: "(drop_bit (7 * c) (?P OR push_bit (7 * w) ?x)) AND 127 = col_code_of (hs ! c) (ps ! c)"
    if "c < Suc w" for c
  proof (cases "c = w")
    case True
    have "drop_bit (7 * w) ?P = 0"
      using tP by (metis drop_bit_take_bit drop_bit_of_0 diff_self_eq_0 take_bit_0)
    then show ?thesis using True tx by (simp add: m127 drop_bit_push_bit)
  next
    case False
    with that have c: "c < w" by simp
    then have "7 \<le> 7 * w - 7 * c" by simp
    then have "take_bit 7 (push_bit (7 * w - 7 * c) ?x) = 0"
      by (simp add: take_bit_push_bit)
    moreover have "drop_bit (7 * c) (push_bit (7 * w) ?x) = push_bit (7 * w - 7 * c) ?x"
      using c by (simp add: drop_bit_push_bit)
    ultimately show ?thesis using ext c by (simp add: m127)
  qed
  show ?case unfolding pack_cols_Suc using nonneg upper cols by blast
qed

subsection \<open>The two simulations run in lockstep\<close>

text \<open>
  \<open>cell h p i\<close> is what a column of height \<open>h\<close> and pattern \<open>p\<close> shows \<open>i\<close>
  rows above the bottom.
\<close>

definition cell :: "nat \<Rightarrow> int \<Rightarrow> nat \<Rightarrow> char" where
  "cell h p i = (if i < h then (if bit p i then CHR ''o'' else CHR ''x'') else CHR ''.'')"

definition board_shape :: "nat \<Rightarrow> nat \<Rightarrow> char list list \<Rightarrow> bool" where
  "board_shape w H board \<longleftrightarrow> length board = H \<and> (\<forall>r<H. length (board ! r) = w)"

definition cols_ok :: "nat \<Rightarrow> nat \<Rightarrow> nat list \<Rightarrow> int list \<Rightarrow> bool" where
  "cols_ok w H hs ps \<longleftrightarrow>
     length hs = w \<and> length ps = w \<and> (\<forall>c<w. hs ! c \<le> H \<and> 0 \<le> ps ! c \<and> ps ! c < 2 ^ (hs ! c))"

definition shows_cols :: "nat \<Rightarrow> nat \<Rightarrow> char list list \<Rightarrow> nat list \<Rightarrow> int list \<Rightarrow> bool" where
  "shows_cols w H board hs ps \<longleftrightarrow>
     (\<forall>c<w. \<forall>i<H. board ! (H - 1 - i) ! c = cell (hs ! c) (ps ! c) i)"

lemma bit_above: "0 \<le> p \<Longrightarrow> p < 2 ^ h \<Longrightarrow> h \<le> i \<Longrightarrow> \<not> bit (p::int) i"
proof -
  assume "0 \<le> p" "p < 2 ^ h" "h \<le> i"
  then have "take_bit h p = p" by (simp add: take_bit_int_eq_self)
  then have "bit p i = bit (take_bit h p) i" by simp
  with \<open>h \<le> i\<close> show ?thesis by (simp add: bit_take_bit_iff)
qed

lemma cell_push:
  fixes p :: int
  assumes "0 \<le> p" and "p < 2 ^ h"
  shows "cell (Suc h) (p OR 2 ^ h) i = (if i = h then CHR ''o'' else cell h p i)"
    and "cell (Suc h) p i = (if i = h then CHR ''x'' else cell h p i)"
  using bit_above [OF assms, of h]
  by (auto simp: cell_def bit_simps)

lemma or_bit_bound:
  fixes p :: int
  assumes "0 \<le> p" and "p < 2 ^ h"
  shows "0 \<le> p OR push_bit h 1" and "p OR push_bit h 1 < 2 ^ (h + 1)" and "p < 2 ^ (h + 1)"
proof -
  show "0 \<le> p OR push_bit h 1" using assms by simp
  have "(2::int) ^ h < 2 ^ (h + 1)" by simp
  with assms show "p < 2 ^ (h + 1)" by linarith
  then show "p OR push_bit h 1 < 2 ^ (h + 1)"
    using assms by (intro OR_upper) (simp_all add: push_bit_eq_mult)
qed

lemma drop_move:
  fixes ply :: nat
  assumes shape: "board_shape w H board" and ok: "cols_ok w H hs ps"
    and agree: "shows_cols w H board hs ps" and col: "col < w" and h: "hs ! col < H"
  defines "row \<equiv> H - 1 - hs ! col"
    and "stone \<equiv> (if ply mod 2 = 0 then CHR ''x'' else CHR ''o'')"
    and "hs' \<equiv> hs[col := hs ! col + 1]"
    and "ps' \<equiv> (if ply AND 1 = 1 then ps[col := (ps ! col) OR push_bit (hs ! col) 1] else ps)"
  shows "board_shape w H (board[row := (board ! row)[col := stone]])"
    and "cols_ok w H hs' ps'"
    and "shows_cols w H (board[row := (board ! row)[col := stone]]) hs' ps'"
proof -
  from ok have len: "length hs = w" "length ps = w"
    and each: "\<And>c. c < w \<Longrightarrow> hs ! c \<le> H \<and> 0 \<le> ps ! c \<and> ps ! c < 2 ^ (hs ! c)"
    by (simp_all add: cols_ok_def)
  from shape have blen: "length board = H" and rlen: "\<And>r. r < H \<Longrightarrow> length (board ! r) = w"
    by (simp_all add: board_shape_def)
  have row: "row < H" using h by (simp add: row_def)
  note p = each [OF col]
  from p have p0: "0 \<le> ps ! col" and p1: "ps ! col < 2 ^ (hs ! col)" by simp_all
  note cp = cell_push [OF p0 p1]
  have odd: "ply AND 1 = 1 \<longleftrightarrow> ply mod 2 \<noteq> 0" by (simp add: and_one_eq)
  show "board_shape w H (board[row := (board ! row)[col := stone]])"
    using blen rlen row by (auto simp: board_shape_def nth_list_update)
  show "cols_ok w H hs' ps'"
    unfolding cols_ok_def
  proof (intro conjI allI impI)
    show "length hs' = w" "length ps' = w" using len by (simp_all add: hs'_def ps'_def)
    fix c assume c: "c < w"
    show "hs' ! c \<le> H" using each [OF c] h len c
      by (cases "c = col") (simp_all add: hs'_def)
    show "0 \<le> ps' ! c" using each [OF c] len c or_bit_bound(1) [of "ps ! col" "hs ! col"] p
      by (cases "c = col") (simp_all add: ps'_def)
    show "ps' ! c < 2 ^ (hs' ! c)"
      using each [OF c] len c or_bit_bound(2,3) [of "ps ! col" "hs ! col"] p
      by (cases "c = col") (simp_all add: ps'_def hs'_def)
  qed
  show "shows_cols w H (board[row := (board ! row)[col := stone]]) hs' ps'"
    unfolding shows_cols_def
  proof (intro allI impI)
    fix c i assume c: "c < w" and i: "i < H"
    from agree c i have old: "board ! (H - 1 - i) ! c = cell (hs ! c) (ps ! c) i"
      by (simp add: shows_cols_def)
    have rows: "H - 1 - i = row \<longleftrightarrow> i = hs ! col" using i h by (auto simp: row_def)
    show "board[row := (board ! row)[col := stone]] ! (H - 1 - i) ! c = cell (hs' ! c) (ps' ! c) i"
    proof (cases "c = col")
      case True
      have new: "cell (hs' ! c) (ps' ! c) i = (if i = hs ! col then stone else cell (hs ! col) (ps ! col) i)"
        using True len col odd
        by (simp add: hs'_def ps'_def stone_def cp)
      show ?thesis
      proof (cases "i = hs ! col")
        case eq: True
        with rows have "H - 1 - i = row" by simp
        with eq new True blen rlen [OF row] row col show ?thesis by simp
      next
        case False
        with rows have "H - 1 - i \<noteq> row" by simp
        with False new True old show ?thesis by simp
      qed
    next
      case False
      then have "cell (hs' ! c) (ps' ! c) i = cell (hs ! c) (ps ! c) i"
        by (simp add: hs'_def ps'_def)
      moreover have "board[row := (board ! row)[col := stone]] ! (H - 1 - i) ! c = board ! (H - 1 - i) ! c"
        using False blen row by (cases "H - 1 - i = row") simp_all
      ultimately show ?thesis using old by simp
    qed
  qed
qed


lemma lockstep:
  assumes "board_shape w H board" and "cols_ok w H hs ps" and "shows_cols w H board hs ps"
  shows "case moveseq_to_board49_loop w H ply hs ps s of
           Inl e \<Rightarrow> moveseq_to_board_42_loop w H ply board hs s = Inl e
         | Inr (hs', ps') \<Rightarrow>
             (\<exists>board'. moveseq_to_board_42_loop w H ply board hs s = Inr board' \<and>
                board_shape w H board' \<and> cols_ok w H hs' ps' \<and> shows_cols w H board' hs' ps')"
  using assms
proof (induction s arbitrary: ply board hs ps)
  case Nil
  then show ?case by simp
next
  case (Cons ch s)
  show ?case
  proof (cases "is_digit ch \<and> col_of ch < w \<and> hs ! col_of ch < H")
    case False
    then show ?thesis by auto
  next
    case True
    let ?col = "col_of ch"
    let ?row = "H - 1 - hs ! ?col"
    let ?stone = "if ply mod 2 = 0 then CHR ''x'' else CHR ''o''"
    let ?hs = "hs[?col := hs ! ?col + 1]"
    let ?ps = "if ply AND 1 = 1 then ps[?col := (ps ! ?col) OR push_bit (hs ! ?col) 1] else ps"
    let ?board = "board[?row := (board ! ?row)[?col := ?stone]]"
    from True have col: "?col < w" and h: "hs ! ?col < H" by simp_all
    note step = drop_move [OF Cons.prems col h, of ply]
    have e: "moveseq_to_board49_loop w H ply hs ps (ch # s) =
        moveseq_to_board49_loop w H (ply + 1) ?hs ?ps s"
      using True by (simp add: Let_def)
    have b: "moveseq_to_board_42_loop w H ply board hs (ch # s) =
        moveseq_to_board_42_loop w H (ply + 1) ?board ?hs s"
      using True by (simp add: Let_def)
    from Cons.IH [OF step, of "ply + 1"] show ?thesis
      unfolding e b .
  qed
qed

subsection \<open>Legal move sequences\<close>

text \<open>
  A legal sequence: decimal digits below 7, no column receiving more than 6
  stones, at most 42 plies.
\<close>

definition legal_moveseq :: "string \<Rightarrow> bool" where
  "legal_moveseq s \<longleftrightarrow>
     (\<forall>ch\<in>set s. is_digit ch \<and> col_of ch < 7) \<and>
     (\<forall>c\<in>set [0..<7]. count_list (map col_of s) c \<le> 6) \<and> length s \<le> 42"

lemma board49_loop_succeeds:
  assumes "\<forall>ch\<in>set s. is_digit ch \<and> col_of ch < w"
    and "\<forall>c<w. hs ! c + count_list (map col_of s) c \<le> H" and "length hs = w"
  shows "\<exists>hs' ps'. moveseq_to_board49_loop w H ply hs ps s = Inr (hs', ps')"
  using assms
proof (induction s arbitrary: ply hs ps)
  case Nil
  then show ?case by simp
next
  case (Cons ch s)
  let ?col = "col_of ch"
  from Cons.prems(1) have d: "is_digit ch" and col: "?col < w" by simp_all
  from Cons.prems(2) col have h: "hs ! ?col < H" by force
  have room: "\<forall>c<w. hs[?col := hs ! ?col + 1] ! c + count_list (map col_of s) c \<le> H"
  proof (intro allI impI)
    fix c assume c: "c < w"
    with Cons.prems(2) have "hs ! c + count_list (map col_of (ch # s)) c \<le> H" by blast
    with c Cons.prems(3) show "hs[?col := hs ! ?col + 1] ! c + count_list (map col_of s) c \<le> H"
      by (cases "c = ?col") simp_all
  qed
  from Cons.prems(1) have rest: "\<forall>ch\<in>set s. is_digit ch \<and> col_of ch < w" by simp
  from Cons.IH [OF rest room] Cons.prems(3) d col h show ?case
    by (simp add: Let_def)
qed

subsection \<open>Decoding\<close>

lemma low_bit: "(drop_bit i (p::int)) AND 1 \<noteq> 0 \<longleftrightarrow> bit p i"
  by (simp add: and_one_eq bit_iff_odd_drop_bit odd_iff_mod_2_eq_one)

lemma fill_col_Suc:
  "fill_col H col p (Suc h) board =
     (fill_col H col p h board)
       [H - 1 - h := (fill_col H col p h board ! (H - 1 - h))
                       [col := (if bit p h then CHR ''o'' else CHR ''x'')]]"
  by (simp add: fill_col_def low_bit)

lemma fill_col_0: "fill_col H col p 0 board = board"
  by (simp add: fill_col_def)

lemma fill_col_nth:
  assumes "board_shape w H board" and "col < w" and "h \<le> H"
  shows "board_shape w H (fill_col H col p h board) \<and>
    (\<forall>c<w. \<forall>i<H. fill_col H col p h board ! (H - 1 - i) ! c =
       (if c = col \<and> i < h then (if bit p i then CHR ''o'' else CHR ''x'')
        else board ! (H - 1 - i) ! c))"
  using assms(3)
proof (induction h)
  case 0
  with assms show ?case by (simp add: fill_col_0)
next
  case (Suc h)
  let ?bd = "fill_col H col p h board"
  let ?st = "if bit p h then CHR ''o'' else CHR ''x''"
  from Suc have shape: "board_shape w H ?bd"
    and old: "\<And>c i. c < w \<Longrightarrow> i < H \<Longrightarrow> ?bd ! (H - 1 - i) ! c =
       (if c = col \<and> i < h then (if bit p i then CHR ''o'' else CHR ''x'')
        else board ! (H - 1 - i) ! c)"
    by simp_all
  from shape have blen: "length ?bd = H" and rlen: "\<And>r. r < H \<Longrightarrow> length (?bd ! r) = w"
    by (simp_all add: board_shape_def)
  from Suc.prems have h: "h < H" by simp
  then have row: "H - 1 - h < H" by simp
  have new: "fill_col H col p (Suc h) board = ?bd[H - 1 - h := (?bd ! (H - 1 - h))[col := ?st]]"
    by (rule fill_col_Suc)
  have "board_shape w H (?bd[H - 1 - h := (?bd ! (H - 1 - h))[col := ?st]])"
    using blen rlen row by (auto simp: board_shape_def nth_list_update)
  moreover have "?bd[H - 1 - h := (?bd ! (H - 1 - h))[col := ?st]] ! (H - 1 - i) ! c =
       (if c = col \<and> i < Suc h then (if bit p i then CHR ''o'' else CHR ''x'')
        else board ! (H - 1 - i) ! c)" if c: "c < w" and i: "i < H" for c i
  proof (cases "i = h")
    case True
    with old [OF c i] blen rlen [OF row] row c assms(2) show ?thesis
      by (cases "c = col") simp_all
  next
    case False
    with i h have "H - 1 - i \<noteq> H - 1 - h" by auto
    with False old [OF c i] show ?thesis by (auto simp: less_Suc_eq)
  qed
  ultimately show ?case unfolding new by blast
qed

lemma shape_ext:
  assumes "board_shape w H a" and "board_shape w H b"
    and "\<forall>c<w. \<forall>i<H. a ! (H - 1 - i) ! c = b ! (H - 1 - i) ! c"
  shows "a = b"
proof (rule nth_equalityI)
  show "length a = length b" using assms(1,2) by (simp add: board_shape_def)
next
  fix r assume "r < length a"
  with assms(1) have r: "r < H" by (simp add: board_shape_def)
  then have rr: "H - 1 - (H - 1 - r) = r" and r': "H - 1 - r < H" by simp_all
  show "a ! r = b ! r"
  proof (rule nth_equalityI)
    show "length (a ! r) = length (b ! r)" using assms(1,2) r by (simp add: board_shape_def)
  next
    fix c assume "c < length (a ! r)"
    with assms(1) r have "c < w" by (simp add: board_shape_def)
    with assms(3) r' have "a ! (H - 1 - (H - 1 - r)) ! c = b ! (H - 1 - (H - 1 - r)) ! c" by blast
    then show "a ! r ! c = b ! r ! c" by (simp only: rr)
  qed
qed

text \<open>One column of the decoder on a packed board of seven columns of height at most 6.\<close>

lemma decode_col:
  assumes ok: "cols_ok 7 6 hs ps" and col: "col < 7"
  shows "board49_to_board42_loop (pack_cols hs ps 7) 6 board (col # cols) =
         board49_to_board42_loop (pack_cols hs ps 7) 6
           (fill_col 6 col (ps ! col) (hs ! col) board) cols"
proof -
  from ok have each: "\<And>c. c < 7 \<Longrightarrow> hs ! c \<le> 6 \<and> 0 \<le> ps ! c \<and> ps ! c < 2 ^ (hs ! c)"
    by (simp add: cols_ok_def)
  have codes: "\<forall>c<7. 0 \<le> col_code_of (hs ! c) (ps ! c) \<and> col_code_of (hs ! c) (ps ! c) < 128"
  proof (intro allI impI)
    fix c :: nat assume "c < 7"
    from each [OF this] col_code_of_bounds [of "ps ! c" "hs ! c"]
    show "0 \<le> col_code_of (hs ! c) (ps ! c) \<and> col_code_of (hs ! c) (ps ! c) < 128" by simp
  qed
  from pack_cols_props [OF codes] col
  have code: "(drop_bit (7 * col) (pack_cols hs ps 7)) AND 127 = col_code_of (hs ! col) (ps ! col)"
    by blast
  note p = each [OF col]
  from p have p0: "0 \<le> ps ! col" and p1: "ps ! col < 2 ^ (hs ! col)" and h: "hs ! col \<le> 6"
    by simp_all
  have le: "col_code_of (hs ! col) (ps ! col) \<le> 126"
    by (rule col_code_of_bounds [OF p0 p1 h])
  have dh: "bit_length (col_code_of (hs ! col) (ps ! col) + 1) - Suc 0 = hs ! col"
    using decode_height [OF p0 p1] by simp
  have dp: "col_code_of (hs ! col) (ps ! col) - (2 ^ (hs ! col) - 1) = ps ! col"
    using decode_pattern [OF p0 p1] by (simp add: push_bit_eq_mult)
  show ?thesis
    using le h by (simp add: code dh dp Let_def)
qed

lemma decode_cols:
  assumes ok: "cols_ok 7 6 hs ps"
    and "board_shape 7 6 board" and "\<forall>c\<in>set cols. c < 7" and "distinct cols"
    and "\<forall>c\<in>set cols. \<forall>i<6. board ! (6 - 1 - i) ! c = CHR ''.''"
  shows "\<exists>board'. board49_to_board42_loop (pack_cols hs ps 7) 6 board cols = Inr board' \<and>
           board_shape 7 6 board' \<and>
           (\<forall>c<7. \<forall>i<6. board' ! (6 - 1 - i) ! c =
              (if c \<in> set cols then cell (hs ! c) (ps ! c) i else board ! (6 - 1 - i) ! c))"
  using assms(2-)
proof (induction cols arbitrary: board)
  case Nil
  then show ?case by simp
next
  case (Cons col cols)
  let ?bd = "fill_col 6 col (ps ! col) (hs ! col) board"
  from Cons.prems have col: "col < 7" and notin: "col \<notin> set cols" by simp_all
  from ok col have h: "hs ! col \<le> 6" by (simp add: cols_ok_def)
  from fill_col_nth [OF Cons.prems(1) col h, of "ps ! col"]
  have shape: "board_shape 7 6 ?bd"
    and filled: "\<And>c i. c < 7 \<Longrightarrow> i < 6 \<Longrightarrow> ?bd ! (6 - 1 - i) ! c =
       (if c = col \<and> i < hs ! col then (if bit (ps ! col) i then CHR ''o'' else CHR ''x'')
        else board ! (6 - 1 - i) ! c)"
    by simp_all
  have dots: "\<forall>c\<in>set cols. \<forall>i<6. ?bd ! (6 - 1 - i) ! c = CHR ''.''"
    using Cons.prems(2,4) notin filled by auto
  from Cons.IH [OF shape _ _ dots] Cons.prems(2,3)
  obtain board' where run: "board49_to_board42_loop (pack_cols hs ps 7) 6 ?bd cols = Inr board'"
    and shape': "board_shape 7 6 board'"
    and res: "\<And>c i. c < 7 \<Longrightarrow> i < 6 \<Longrightarrow> board' ! (6 - 1 - i) ! c =
      (if c \<in> set cols then cell (hs ! c) (ps ! c) i else ?bd ! (6 - 1 - i) ! c)"
    by auto
  have "board' ! (6 - 1 - i) ! c =
      (if c \<in> set (col # cols) then cell (hs ! c) (ps ! c) i else board ! (6 - 1 - i) ! c)"
    if c: "c < 7" and i: "i < 6" for c i
  proof (cases "c = col")
    case True
    with res [OF c i] filled [OF c i] notin Cons.prems(4) i show ?thesis
      by (simp add: cell_def)
  next
    case False
    with res [OF c i] filled [OF c i] show ?thesis by simp
  qed
  with run shape' decode_col [OF ok col] show ?case by auto
qed


subsection \<open>Encoding succeeds exactly on boards of seven columns of height at most 6\<close>

lemma start_ok:
  "board_shape 7 6 (empty_board 7 6)" "cols_ok 7 6 (replicate 7 0) (replicate 7 0)"
  "shows_cols 7 6 (empty_board 7 6) (replicate 7 0) (replicate 7 0)"
  by (simp_all add: board_shape_def cols_ok_def shows_cols_def empty_board_def cell_def)

lemma board49_Inr:
  assumes "moveseq_to_board49 s 7 6 = Inr b"
  obtains hs ps board where
    "moveseq_to_board49_loop 7 6 0 (replicate 7 0) (replicate 7 0) s = Inr (hs, ps)"
    "b = pack_cols hs ps 7"
    "moveseq_to_board_42_loop 7 6 0 (empty_board 7 6) (replicate 7 0) s = Inr board"
    "board_shape 7 6 board" "cols_ok 7 6 hs ps" "shows_cols 7 6 board hs ps"
proof -
  from assms obtain hs ps where
    run: "moveseq_to_board49_loop 7 6 0 (replicate 7 0) (replicate 7 0) s = Inr (hs, ps)"
    and b: "b = pack_cols hs ps 7"
    by (auto simp: moveseq_to_board49_def split: sum.splits)
  from lockstep [OF start_ok, of 0 s] run that [OF run b] show thesis by auto
qed

lemma legal_board49:
  assumes "legal_moveseq s"
  shows "\<exists>b. moveseq_to_board49 s 7 6 = Inr b"
proof -
  from assms have a: "\<forall>ch\<in>set s. is_digit ch \<and> col_of ch < 7"
    and b: "\<forall>c<7. replicate 7 (0::nat) ! c + count_list (map col_of s) c \<le> 6"
    by (simp_all add: legal_moveseq_def)
  from board49_loop_succeeds [OF a b, of 0 "replicate 7 0"]
  show ?thesis by (auto simp: moveseq_to_board49_def)
qed

lemma board49_range:
  assumes "moveseq_to_board49 s 7 6 = Inr b"
  shows "0 \<le> b" and "b < 2 ^ 49" and "\<forall>c<7. (drop_bit (7 * c) b) AND 127 \<le> 126"
proof -
  from assms obtain hs ps where b: "b = pack_cols hs ps 7" and ok: "cols_ok 7 6 hs ps"
    by (rule board49_Inr)
  from ok have each: "\<And>c. c < 7 \<Longrightarrow> hs ! c \<le> 6 \<and> 0 \<le> ps ! c \<and> ps ! c < 2 ^ (hs ! c)"
    by (simp add: cols_ok_def)
  have codes: "0 \<le> col_code_of (hs ! c) (ps ! c) \<and> col_code_of (hs ! c) (ps ! c) \<le> 126"
    if "c < 7" for c
    using each [OF that] col_code_of_bounds [of "ps ! c" "hs ! c"] by simp
  then have "\<forall>c<7. 0 \<le> col_code_of (hs ! c) (ps ! c) \<and> col_code_of (hs ! c) (ps ! c) < 128"
    by force
  from pack_cols_props [OF this] codes
  show "0 \<le> b" and "b < 2 ^ 49" and "\<forall>c<7. (drop_bit (7 * c) b) AND 127 \<le> 126"
    unfolding b by simp_all
qed

lemma roundtrip_Inr:
  assumes "moveseq_to_board49 s 7 6 = Inr b"
  shows "\<exists>bd. moveseq_to_board_42 s 7 6 = Inr bd \<and> board49_to_board42 b 7 6 = Inr bd"
proof -
  from assms obtain hs ps board where b: "b = pack_cols hs ps 7"
    and sim: "moveseq_to_board_42_loop 7 6 0 (empty_board 7 6) (replicate 7 0) s = Inr board"
    and shape: "board_shape 7 6 board" and ok: "cols_ok 7 6 hs ps"
    and agree: "shows_cols 7 6 board hs ps"
    by (rule board49_Inr)
  have dots: "\<forall>c\<in>set [0..<7]. \<forall>i<6. empty_board 7 6 ! (6 - 1 - i) ! c = CHR ''.''"
    by (simp add: empty_board_def)
  from decode_cols [OF ok start_ok(1) _ _ dots]
  obtain board' where dec: "board49_to_board42_loop (pack_cols hs ps 7) 6 (empty_board 7 6) [0..<7] = Inr board'"
    and shape': "board_shape 7 6 board'"
    and res: "\<forall>c<7. \<forall>i<6. board' ! (6 - 1 - i) ! c = cell (hs ! c) (ps ! c) i"
    by auto
  from agree res have "\<forall>c<7. \<forall>i<6. board' ! (6 - 1 - i) ! c = board ! (6 - 1 - i) ! c"
    by (simp add: shows_cols_def)
  with shape' shape have "board' = board" by (rule shape_ext)
  with dec sim b board49_range(1) [OF assms] show ?thesis
    by (simp add: moveseq_to_board_42_def board49_to_board42_def)
qed

text \<open>The spec's example sequence, evaluated.\<close>

lemma upt_7: "[0..<7] = [0, 1, 2, 3, 4, 5, 6]"
  by (simp add: upt_rec)

lemma legal_ex: "legal_moveseq ''3333332''"
  by (simp add: legal_moveseq_def is_digit_def col_of_def upt_7)

lemma enc_ex: "moveseq_to_board49 ''3333332'' 7 6 = Inr 220217344"
  by code_simp

lemma sim_ex:
  "moveseq_to_board_42 ''3333332'' 7 6 = Inr ''...o......x......o......x......o.....xx...''"
  by code_simp

text \<open>
  C1. For every legal move sequence, the encoder succeeds, the row/column
  simulation succeeds, and decoding the board code gives the simulated board.
\<close>

theorem codec_roundtrip:
  assumes "legal_moveseq s"
  shows "\<exists>b bd. moveseq_to_board49 s 7 6 = Inr b \<and> moveseq_to_board_42 s 7 6 = Inr bd \<and>
           board49_to_board42 b 7 6 = Inr bd"
  using legal_board49 [OF assms] roundtrip_Inr by blast

theorem codec_roundtrip_witness:
  "legal_moveseq ''3333332'' \<and> moveseq_to_board49 ''3333332'' 7 6 = Inr 220217344 \<and>
   moveseq_to_board_42 ''3333332'' 7 6 = Inr ''...o......x......o......x......o.....xx...'' \<and>
   board49_to_board42 220217344 7 6 = Inr ''...o......x......o......x......o.....xx...''"
  using codec_roundtrip [OF legal_ex] legal_ex enc_ex sim_ex by auto

lemma get_loop_error: "get_loop c sl kp i dib = Inl e \<Longrightarrow> e = IndexError"
proof (induction c sl kp i dib rule: get_loop.induct)
  case (1 c sl kp i dib)
  show ?case
    using "1.IH" "1.prems"
    by (cases rule: get_loop_cases [of dib c sl kp i]) auto
qed

lemma set_loop_error: "set_loop c sl kp i dib entry = Inl e \<Longrightarrow> e = IndexError"
proof (induction c sl kp i dib entry rule: set_loop.induct)
  case (1 c sl kp i dib entry)
  show ?case
    using "1.IH" "1.prems"
    by (cases rule: set_loop_cases [of dib c sl kp i entry]) auto
qed

text \<open>
  C9. For every legal move sequence the board code is non-negative and below
  \<open>2 ^ 49\<close>, each seven-bit column code is at most 126, and neither \<^verbatim>\<open>get\<close> nor
  \<^verbatim>\<open>set\<close> raises the key-range error on it, whatever the table and value.
\<close>

theorem board49_key_range:
  assumes "legal_moveseq s"
  shows "\<exists>b. moveseq_to_board49 s 7 6 = Inr b \<and> 0 \<le> b \<and> b < 2 ^ 49 \<and>
           (\<forall>c<7. (drop_bit (7 * c) b) AND 127 \<le> 126) \<and>
           (\<forall>t. TT_get t b \<noteq> Inl KeyOutOfRange) \<and>
           (\<forall>t v. TT_set t b v \<noteq> Inl KeyOutOfRange)"
proof -
  from legal_board49 [OF assms] obtain b where b: "moveseq_to_board49 s 7 6 = Inr b" ..
  note r = board49_range [OF b]
  have "TT_get t b \<noteq> Inl KeyOutOfRange" for t
    using r(1,2) by (auto simp: TT_get_def KEY_MAX_def split: sum.splits dest: get_loop_error)
  moreover have "TT_set t b v \<noteq> Inl KeyOutOfRange" for t v
    using r(1,2)
    by (auto simp: TT_set_def KEY_MAX_def Let_def split: sum.splits set_exit.splits if_splits
        dest: set_loop_error)
  ultimately show ?thesis using b r by blast
qed

theorem board49_key_range_witness:
  "legal_moveseq ''3333332'' \<and> moveseq_to_board49 ''3333332'' 7 6 = Inr 220217344 \<and>
   TT_get \<lparr>cap = 4, slots = [0, 0, 0, 0], size_tt = 0\<rparr> 220217344 \<noteq> Inl KeyOutOfRange \<and>
   TT_set \<lparr>cap = 4, slots = [0, 0, 0, 0], size_tt = 0\<rparr> 220217344 17 \<noteq> Inl KeyOutOfRange"
  using board49_key_range [OF legal_ex] legal_ex enc_ex by auto

section \<open>The alpha-beta driver \<^verbatim>\<open>search\<close>\<close>

text \<open>
  The oracle subprocess is a total function from the queried move sequence to
  the parsed reply \<^verbatim>\<open>(is_terminal, wdl_list)\<close>. The global transposition table is
  threaded through as explicit state. Each nested call of \<^verbatim>\<open>search\<close> uses one unit
  of the recursion budget given as first argument.
\<close>

type_synonym wdl_oracle = "string \<Rightarrow> bool \<times> int option list"

definition MOVE_ORDERING :: "nat list" where
  "MOVE_ORDERING = [3, 2, 4, 1, 5, 0, 6]"

text \<open>\<^verbatim>\<open>str(move)\<close> for the single-digit moves of \<open>MOVE_ORDERING\<close>.\<close>

definition str_move :: "nat \<Rightarrow> string" where
  "str_move m = [char_of (48 + m)]"

text \<open>\<^verbatim>\<open>[x for x in wdl_list if x is not None]\<close> and \<^verbatim>\<open>max\<close> of it.\<close>

definition defined_vals :: "int option list \<Rightarrow> int list" where
  "defined_vals wdl = concat (map (\<lambda>x. case x of None \<Rightarrow> [] | Some v \<Rightarrow> [v]) wdl)"

fun py_max :: "int list \<Rightarrow> error + int" where
  "py_max [] = Inl EmptyMax"
| "py_max (x # xs) = Inr (fold max xs x)"

text \<open>The first move of the ordering with \<^verbatim>\<open>wdl_list[move] == value\<close>.\<close>

fun first_best :: "int option list \<Rightarrow> int \<Rightarrow> nat list \<Rightarrow> error + nat option" where
  "first_best wdl val [] = Inr None"
| "first_best wdl val (m # ms) =
     (if length wdl \<le> m then Inl IndexError
      else if wdl ! m = Some val then Inr (Some m)
      else first_best wdl val ms)"

text \<open>The second loop of the principal-variation branch, over the remaining moves.\<close>

fun rest_loop ::
  "(string \<Rightarrow> int \<Rightarrow> int \<Rightarrow> TT \<Rightarrow> error + int \<times> TT) \<Rightarrow> string \<Rightarrow> int option list \<Rightarrow> nat \<Rightarrow>
   int \<Rightarrow> int \<Rightarrow> TT \<Rightarrow> nat list \<Rightarrow> error + TT" where
  "rest_loop rec moveseq wdl first_move alpha beta tt [] = Inr tt"
| "rest_loop rec moveseq wdl first_move alpha beta tt (m # ms) =
     (if m = first_move then rest_loop rec moveseq wdl first_move alpha beta tt ms
      else if length wdl \<le> m then Inl IndexError
      else if wdl ! m = None then rest_loop rec moveseq wdl first_move alpha beta tt ms
      else (case rec (moveseq @ str_move m) (- beta) (- alpha) tt of
              Inl e \<Rightarrow> Inl e
            | Inr (r, tt') \<Rightarrow>
                if - r \<le> alpha then rest_loop rec moveseq wdl first_move alpha beta tt' ms
                else Inl AssertionFailed))"

definition store :: "TT \<Rightarrow> int \<Rightarrow> int \<Rightarrow> int \<Rightarrow> error + int \<times> TT" where
  "store tt board val packed =
     (case TT_set tt board packed of Inl e \<Rightarrow> Inl e | Inr tt' \<Rightarrow> Inr (val, tt'))"

text \<open>The terminal branch: the value of a terminal position.\<close>

definition terminal_value :: "wdl_oracle \<Rightarrow> string \<Rightarrow> error + int" where
  "terminal_value query moveseq =
     (if length moveseq = 42 then
        (case py_max (defined_vals (snd (query (butlast moveseq)))) of
           Inl e \<Rightarrow> Inl e
         | Inr m \<Rightarrow> Inr (if m = 1 then - 1 else 0))
      else Inr (- 1))"

text \<open>The branch \<^verbatim>\<open>if beta <= value\<close>.\<close>

definition cutoff_branch ::
  "(string \<Rightarrow> int \<Rightarrow> int \<Rightarrow> TT \<Rightarrow> error + int \<times> TT) \<Rightarrow> string \<Rightarrow> int \<Rightarrow> int option list \<Rightarrow>
   int \<Rightarrow> int \<Rightarrow> int \<Rightarrow> int \<Rightarrow> TT \<Rightarrow> error + int \<times> TT" where
  "cutoff_branch rec moveseq board wdl val ub alpha beta tt =
     (case first_best wdl val MOVE_ORDERING of
        Inl e \<Rightarrow> Inl e
      | Inr None \<Rightarrow> store tt board val ((val + 1) + ((ub + 1) * 16))
      | Inr (Some move) \<Rightarrow>
          (case rec (moveseq @ str_move move) (- beta) (- alpha) tt of
             Inl e \<Rightarrow> Inl e
           | Inr (r, tt1) \<Rightarrow>
               if - r \<noteq> val then Inl AssertionFailed
               else if \<not> - r \<ge> beta then Inl AssertionFailed
               else store tt1 board val ((val + 1) + ((ub + 1) * 16))))"

text \<open>
  The \<^verbatim>\<open>else\<close> branch. When no move of the ordering has the best value,
  \<^verbatim>\<open>first_move\<close> is unbound at its first use in the second loop.
\<close>

definition pv_branch ::
  "(string \<Rightarrow> int \<Rightarrow> int \<Rightarrow> TT \<Rightarrow> error + int \<times> TT) \<Rightarrow> string \<Rightarrow> int \<Rightarrow> int option list \<Rightarrow>
   int \<Rightarrow> int \<Rightarrow> int \<Rightarrow> TT \<Rightarrow> error + int \<times> TT" where
  "pv_branch rec moveseq board wdl val alpha beta tt =
     (case first_best wdl val MOVE_ORDERING of
        Inl e \<Rightarrow> Inl e
      | Inr None \<Rightarrow> Inl UnboundLocal
      | Inr (Some first_move) \<Rightarrow>
          (case rec (moveseq @ str_move first_move) (- alpha - 1) (- alpha) tt of
             Inl e \<Rightarrow> Inl e
           | Inr (r, tt1) \<Rightarrow>
               if - r \<noteq> val then Inl AssertionFailed
               else if \<not> - r < beta then Inl AssertionFailed
               else (case rest_loop rec moveseq wdl first_move (max alpha val) beta tt1 MOVE_ORDERING of
                       Inl e \<Rightarrow> Inl e
                     | Inr tt2 \<Rightarrow> store tt2 board val ((val + 1) + ((val + 1) * 16)))))"

text \<open>Everything after the table probe; \<open>ub\<close> is the upper bound the probe left.\<close>

definition search_node ::
  "(string \<Rightarrow> int \<Rightarrow> int \<Rightarrow> TT \<Rightarrow> error + int \<times> TT) \<Rightarrow> wdl_oracle \<Rightarrow> string \<Rightarrow> int \<Rightarrow>
   int \<Rightarrow> int \<Rightarrow> int \<Rightarrow> TT \<Rightarrow> error + int \<times> TT" where
  "search_node rec query moveseq board ub alpha beta tt =
     (if fst (query moveseq) then
        (case terminal_value query moveseq of
           Inl e \<Rightarrow> Inl e
         | Inr val \<Rightarrow> store tt board val ((val + 1) + ((val + 1) * 16)))
      else
        (case py_max (defined_vals (snd (query moveseq))) of
           Inl e \<Rightarrow> Inl e
         | Inr val \<Rightarrow>
             if beta \<le> val then cutoff_branch rec moveseq board (snd (query moveseq)) val ub alpha beta tt
             else pv_branch rec moveseq board (snd (query moveseq)) val alpha beta tt))"

text \<open>The body of \<^verbatim>\<open>search\<close>, with its recursive calls going to \<open>rec\<close>.\<close>

definition search_body ::
  "(string \<Rightarrow> int \<Rightarrow> int \<Rightarrow> TT \<Rightarrow> error + int \<times> TT) \<Rightarrow> wdl_oracle \<Rightarrow> string \<Rightarrow>
   int \<Rightarrow> int \<Rightarrow> TT \<Rightarrow> error + int \<times> TT" where
  "search_body rec query moveseq alpha beta tt =
     (case moveseq_to_board49 moveseq 7 6 of
        Inl e \<Rightarrow> Inl e
      | Inr board \<Rightarrow>
          (case TT_get tt board of
             Inl e \<Rightarrow> Inl e
           | Inr None \<Rightarrow> search_node rec query moveseq board 1 alpha beta tt
           | Inr (Some tt_value) \<Rightarrow>
               (let lb = tt_value mod 16 - 1;
                    ub = tt_value div 16 - 1
                in if lb \<ge> beta then Inr (lb, tt)
                   else if ub \<le> alpha then Inr (ub, tt)
                   else search_node rec query moveseq board ub (max alpha lb) (min beta ub) tt)))"

primrec search :: "nat \<Rightarrow> wdl_oracle \<Rightarrow> string \<Rightarrow> int \<Rightarrow> int \<Rightarrow> TT \<Rightarrow> error + int \<times> TT" where
  "search 0 query moveseq alpha beta tt = Inl OutOfFuel"
| "search (Suc n) query moveseq alpha beta tt =
     search_body (search n query) query moveseq alpha beta tt"

subsection \<open>What the table probe leaves behind\<close>

text \<open>
  The upper bound and the window after the probe: unchanged on a miss, and
  tightened by the unpacked record on a hit that does not return.
\<close>

definition probe_ub :: "int option \<Rightarrow> int" where
  "probe_ub r = (case r of None \<Rightarrow> 1 | Some v \<Rightarrow> v div 16 - 1)"

definition probe_alpha :: "int \<Rightarrow> int option \<Rightarrow> int" where
  "probe_alpha alpha r = (case r of None \<Rightarrow> alpha | Some v \<Rightarrow> max alpha (v mod 16 - 1))"

definition probe_beta :: "int \<Rightarrow> int option \<Rightarrow> int" where
  "probe_beta beta r = (case r of None \<Rightarrow> beta | Some v \<Rightarrow> min beta (v div 16 - 1))"

text \<open>The probe does not end the call: a miss, or a hit with \<open>lb < beta\<close> and \<open>alpha < ub\<close>.\<close>

definition probe_continues :: "int \<Rightarrow> int \<Rightarrow> int option \<Rightarrow> bool" where
  "probe_continues alpha beta r =
     (case r of None \<Rightarrow> True | Some v \<Rightarrow> v mod 16 - 1 < beta \<and> alpha < v div 16 - 1)"

lemma search_body_node:
  assumes "moveseq_to_board49 ms 7 6 = Inr board" and "TT_get tt board = Inr r"
    and "probe_continues alpha beta r"
  shows "search_body rec query ms alpha beta tt =
         search_node rec query ms board (probe_ub r) (probe_alpha alpha r) (probe_beta beta r) tt"
  using assms
  by (cases r) (simp_all add: search_body_def probe_ub_def probe_alpha_def probe_beta_def
      probe_continues_def Let_def)

lemma py_max_Max: "xs \<noteq> [] \<Longrightarrow> py_max xs = Inr (Max (set xs))"
  by (cases xs) (simp_all add: Max.set_eq_fold [symmetric])

lemma py_max_Inr:
  assumes "py_max xs = Inr m"
  shows "m \<in> set xs" and "\<forall>x\<in>set xs. x \<le> m"
proof -
  from assms have ne: "xs \<noteq> []" by (cases xs) simp_all
  with assms have m: "m = Max (set xs)" by (simp add: py_max_Max)
  from ne show "m \<in> set xs" unfolding m by (intro Max_in) simp_all
  show "\<forall>x\<in>set xs. x \<le> m" unfolding m by simp
qed


subsection \<open>The oracle's values, read from the raw reply\<close>

lemma defined_vals_set: "set (defined_vals wdl) = {v. Some v \<in> set wdl}"
  by (induction wdl) (auto simp: defined_vals_def split: option.splits)


lemma py_max_defined:
  "py_max (defined_vals wdl) = Inr v \<longleftrightarrow>
   Some v \<in> set wdl \<and> (\<forall>x. Some x \<in> set wdl \<longrightarrow> x \<le> v)"
proof
  assume a: "py_max (defined_vals wdl) = Inr v"
  from py_max_Inr [OF a] show "Some v \<in> set wdl \<and> (\<forall>x. Some x \<in> set wdl \<longrightarrow> x \<le> v)"
    by (simp add: defined_vals_set)
next
  assume a: "Some v \<in> set wdl \<and> (\<forall>x. Some x \<in> set wdl \<longrightarrow> x \<le> v)"
  then have ne: "defined_vals wdl \<noteq> []" using defined_vals_set [of wdl] by auto
  have "Max (set (defined_vals wdl)) = v"
  proof (rule Max_eqI)
    show "finite (set (defined_vals wdl))" by simp
    show "v \<in> set (defined_vals wdl)" using a by (simp add: defined_vals_set)
    show "\<And>y. y \<in> set (defined_vals wdl) \<Longrightarrow> y \<le> v" using a by (simp add: defined_vals_set)
  qed
  with ne show "py_max (defined_vals wdl) = Inr v" by (simp add: py_max_Max)
qed



text \<open>
  C4. When the probe does not end the call, the position is not terminal and
  \<open>beta \<le> v\<close> for the tightened \<open>beta\<close> and the maximum \<open>v\<close> of the non-absent
  entries of the oracle's reply, a call that returns has returned \<open>v\<close> and its
  last action was to store \<open>(v + 1) + 16 * (ub + 1)\<close> under the board key, \<open>ub\<close>
  being the upper bound the probe found, or 1 when it missed. The table it
  stored into is the one the single child search left (or the incoming one if
  no move of the ordering has value \<open>v\<close>).
\<close>

theorem search_cutoff_store:
  assumes enc: "moveseq_to_board49 ms 7 6 = Inr board"
    and probe: "TT_get tt board = Inr r" and cont: "probe_continues alpha beta r"
    and nonterm: "\<not> fst (query ms)"
    and vmem: "Some v \<in> set (snd (query ms))"
    and vmax: "\<forall>x. Some x \<in> set (snd (query ms)) \<longrightarrow> x \<le> v"
    and cut: "probe_beta beta r \<le> v"
    and ret: "search (Suc n) query ms alpha beta tt = Inr (res, tt')"
  shows "res = v \<and>
    (\<exists>tt1. TT_set tt1 board ((v + 1) + 16 * (probe_ub r + 1)) = Inr tt' \<and>
       (first_best (snd (query ms)) v MOVE_ORDERING = Inr None \<and> tt1 = tt \<or>
        (\<exists>m. first_best (snd (query ms)) v MOVE_ORDERING = Inr (Some m) \<and>
           search n query (ms @ str_move m) (- probe_beta beta r) (- probe_alpha alpha r) tt =
             Inr (- v, tt1))))"
proof -
  let ?a = "probe_alpha alpha r" and ?b = "probe_beta beta r" and ?ub = "probe_ub r"
  let ?wdl = "snd (query ms)"
  from vmem vmax have v: "py_max (defined_vals ?wdl) = Inr v" by (simp add: py_max_defined)
  from ret have c: "cutoff_branch (search n query) ms board ?wdl v ?ub ?a ?b tt = Inr (res, tt')"
    using nonterm v cut by (simp add: search_body_node [OF enc probe cont] search_node_def)
  have st: "res = v \<and> TT_set t board ((v + 1) + 16 * (?ub + 1)) = Inr tt'"
    if "store t board v ((v + 1) + ((?ub + 1) * 16)) = Inr (res, tt')" for t
    using that by (auto simp: store_def mult.commute split: sum.splits)
  show ?thesis
  proof (cases "first_best ?wdl v MOVE_ORDERING")
    case (Inl e)
    with c show ?thesis by (simp add: cutoff_branch_def)
  next
    case (Inr mo)
    show ?thesis
    proof (cases mo)
      case None
      with Inr c have "store tt board v ((v + 1) + ((?ub + 1) * 16)) = Inr (res, tt')"
        by (simp add: cutoff_branch_def)
      from st [OF this] Inr None show ?thesis by auto
    next
      case (Some m)
      show ?thesis
      proof (cases "search n query (ms @ str_move m) (- ?b) (- ?a) tt")
        case (Inl e)
        with Inr Some c show ?thesis by (simp add: cutoff_branch_def)
      next
        case child: (Inr p)
        obtain cr tt1 where p: "p = (cr, tt1)" by (cases p)
        from c Inr Some child p have neg: "- cr = v"
          and "store tt1 board v ((v + 1) + ((?ub + 1) * 16)) = Inr (res, tt')"
          by (auto simp: cutoff_branch_def split: if_splits)
        from st [OF this(2)] neg child p Inr Some show ?thesis by auto
      qed
    qed
  qed
qed

subsection \<open>The records \<^verbatim>\<open>search\<close> stores\<close>

lemma store_Inr:
  assumes "store t board val packed = Inr (res, tt')"
  shows "res = val" and "TT_set t board packed = Inr tt'"
  using assms by (auto simp: store_def split: sum.splits)

lemma terminal_value_cases: "terminal_value query ms = Inr val \<Longrightarrow> val = - 1 \<or> val = 0"
  by (auto simp: terminal_value_def split: if_splits sum.splits)

lemma unpack:
  fixes a b :: int
  assumes "- 1 \<le> a" and "a \<le> 1"
  shows "((a + 1) + ((b + 1) * 16)) mod 16 - 1 = a" and "((a + 1) + ((b + 1) * 16)) div 16 - 1 = b"
proof -
  have "((a + 1) + ((b + 1) * 16)) mod 16 = (a + 1) mod 16" by (rule mod_mult_self1)
  also have "\<dots> = a + 1" using assms by (intro mod_pos_pos_trivial) simp_all
  finally show "((a + 1) + ((b + 1) * 16)) mod 16 - 1 = a" by simp
  have "((a + 1) + ((b + 1) * 16)) div 16 = (b + 1) + (a + 1) div 16" by (rule div_mult_self1) simp
  also have "(a + 1) div 16 = 0" using assms by (intro div_pos_pos_trivial) simp_all
  finally show "((a + 1) + ((b + 1) * 16)) div 16 - 1 = b" by simp
qed

subsection \<open>Records in the table\<close>

lemma get_loop_Some_entry:
  "get_loop c sl kp i dib = Inr (Some v) \<Longrightarrow>
   \<exists>e\<in>set sl. e \<noteq> 0 \<and> e AND KEY_MASK = kp \<and> v = drop_bit VAL_SHIFT e"
proof (induction c sl kp i dib rule: get_loop.induct)
  case (1 c sl kp i dib)
  show ?case
    using "1.IH" "1.prems"
    by (cases rule: get_loop_cases [of dib c sl kp i]) (auto simp: nth_mem)
qed

lemma TT_get_Some_entry:
  assumes "TT_get t k = Inr (Some v)"
  shows "\<exists>e\<in>set (slots t). e \<noteq> 0 \<and> int (e AND KEY_MASK) - 1 = k \<and> int (drop_bit VAL_SHIFT e) = v"
proof -
  from assms have k: "0 \<le> k"
    by (auto simp: TT_get_def split: if_splits)
  from assms obtain w where "get_loop (cap t) (slots t) (nat (k + 1)) (home (cap t) (nat (k + 1))) 0
      = Inr (Some w)" and v: "v = int w"
    by (auto simp: TT_get_def split: if_splits sum.splits)
  from get_loop_Some_entry [OF this(1)] obtain e where
    "e \<in> set (slots t)" "e \<noteq> 0" "e AND KEY_MASK = nat (k + 1)" "w = drop_bit VAL_SHIFT e"
    by blast
  with k v show ?thesis by (intro bexI [of _ e]) simp_all
qed

lemma TT_set_entries:
  assumes "TT_set t k p = Inr t'" and "e \<in> set (slots t')"
  shows "e \<in> set (slots t) \<or>
         (e \<noteq> 0 \<and> int (e AND KEY_MASK) - 1 = k \<and> int (drop_bit VAL_SHIFT e) = p)"
proof -
  from assms(1) obtain sl ex where r: "0 \<le> k" "k \<le> KEY_MAX" "0 \<le> p"
    and s: "set_loop (cap t) (slots t) (nat (k + 1)) (home (cap t) (nat (k + 1))) 0
       (nat (k + 1) OR push_bit VAL_SHIFT (nat p)) = Inr (sl, ex)"
    and t': "t' = t\<lparr>slots := sl, size_tt := (if ex = Inserted then size_tt t + 1 else size_tt t)\<rparr>"
    by (rule TT_set_Inr)
  let ?entry = "nat (k + 1) OR push_bit VAL_SHIFT (nat p)"
  from key_plus_bound [OF r(1,2)] have kp: "0 < nat (k + 1)" "nat (k + 1) < 2 ^ 50" by simp_all
  from assms(2) t' set_loop_subset [OF s] have "e = ?entry \<or> e \<in> set (slots t)" by auto
  then show ?thesis
  proof
    assume e: "e = ?entry"
    have "?entry \<noteq> 0" by (rule entry_nonzero [OF kp(1)])
    moreover have "?entry AND KEY_MASK = nat (k + 1)" by (rule entry_key [OF kp(2)])
    moreover have "drop_bit VAL_SHIFT ?entry = nat p" by (rule entry_val [OF kp(2)])
    ultimately show ?thesis using e r by simp
  qed simp
qed

text \<open>
  The oracle answers by position: two move sequences that reach the same board
  get the same reply. Its values lie in \<open>- 1 .. 1\<close>.
\<close>

definition by_position :: "wdl_oracle \<Rightarrow> bool" where
  "by_position query \<longleftrightarrow>
     (\<forall>s1 s2 b. moveseq_to_board49 s1 7 6 = Inr b \<longrightarrow> moveseq_to_board49 s2 7 6 = Inr b \<longrightarrow>
        query s1 = query s2)"

definition values_in_range :: "wdl_oracle \<Rightarrow> bool" where
  "values_in_range query \<longleftrightarrow> (\<forall>s x. Some x \<in> set (snd (query s)) \<longrightarrow> - 1 \<le> x \<and> x \<le> 1)"

text \<open>
  The tables a run can see: the constructor's, and the table any returning call
  of \<^verbatim>\<open>search\<close> leaves when started on such a table.
\<close>

inductive reachable :: "wdl_oracle \<Rightarrow> TT \<Rightarrow> bool" for query :: wdl_oracle where
  new: "TT_new capacity = Inr t \<Longrightarrow> reachable query t"
| call: "reachable query t \<Longrightarrow> search n query ms alpha beta t = Inr (res, t') \<Longrightarrow> reachable query t'"

text \<open>
  A record \<open>p\<close> under board \<open>b\<close> is sound for the oracle: its bounds are ordered
  within \<open>- 1 .. 1\<close>, and its upper bound is not below any value the oracle
  gives a non-terminal position with that board.
\<close>

definition record_ok :: "wdl_oracle \<Rightarrow> int \<Rightarrow> int \<Rightarrow> bool" where
  "record_ok query b p \<longleftrightarrow>
     - 1 \<le> p mod 16 - 1 \<and> p mod 16 - 1 \<le> p div 16 - 1 \<and> p div 16 - 1 \<le> 1 \<and>
     (\<forall>s v. moveseq_to_board49 s 7 6 = Inr b \<longrightarrow> \<not> fst (query s) \<longrightarrow>
        Some v \<in> set (snd (query s)) \<longrightarrow> v \<le> p div 16 - 1)"

definition table_ok :: "wdl_oracle \<Rightarrow> TT \<Rightarrow> bool" where
  "table_ok query t \<longleftrightarrow>
     (\<forall>e\<in>set (slots t). e \<noteq> 0 \<longrightarrow>
        record_ok query (int (e AND KEY_MASK) - 1) (int (drop_bit VAL_SHIFT e)))"

lemma table_ok_new: "TT_new capacity = Inr t \<Longrightarrow> table_ok query t"
  by (auto simp: TT_new_def table_ok_def split: if_splits)

lemma table_ok_get: "table_ok query t \<Longrightarrow> TT_get t k = Inr (Some v) \<Longrightarrow> record_ok query k v"
  using TT_get_Some_entry [of t k v] by (auto simp: table_ok_def)

lemma table_ok_set:
  assumes "table_ok query t" and "TT_set t k p = Inr t'" and "record_ok query k p"
  shows "table_ok query t'"
  unfolding table_ok_def
proof (intro ballI impI)
  fix e assume e: "e \<in> set (slots t')" "e \<noteq> 0"
  from TT_set_entries [OF assms(2) e(1)] assms(1,3) e(2)
  show "record_ok query (int (e AND KEY_MASK) - 1) (int (drop_bit VAL_SHIFT e))"
    by (auto simp: table_ok_def)
qed

lemma unpack16:
  fixes a b :: int
  assumes "- 1 \<le> a" and "a \<le> 1"
  shows "((a + 1) + 16 * (b + 1)) mod 16 - 1 = a" and "((a + 1) + 16 * (b + 1)) div 16 - 1 = b"
  using unpack [OF assms, of b] by (simp_all add: mult.commute)

lemma record_okI:
  assumes "- 1 \<le> a" and "a \<le> b" and "b \<le> 1"
    and "\<forall>s v. moveseq_to_board49 s 7 6 = Inr board \<longrightarrow> \<not> fst (query s) \<longrightarrow>
           Some v \<in> set (snd (query s)) \<longrightarrow> v \<le> b"
  shows "record_ok query board ((a + 1) + 16 * (b + 1))"
proof -
  from assms(2,3) have "a \<le> 1" by simp
  note u = unpack16 [OF assms(1) this, of b]
  show ?thesis unfolding record_ok_def u using assms by blast
qed

subsection \<open>Where a call stores\<close>

lemma rest_loop_preserves:
  assumes rec: "\<forall>s a b t r t'. Q t \<longrightarrow> rec s a b t = Inr (r, t') \<longrightarrow> Q t'"
  shows "Q tt \<Longrightarrow> rest_loop rec moveseq wdl fm alpha beta tt mvs = Inr tt' \<Longrightarrow> Q tt'"
proof (induction mvs arbitrary: tt)
  case Nil
  then show ?case by simp
next
  case (Cons m mvs)
  show ?case
  proof (cases "m = fm \<or> (\<not> length wdl \<le> m \<and> wdl ! m = None)")
    case True
    with Cons.prems have "rest_loop rec moveseq wdl fm alpha beta tt mvs = Inr tt'"
      by (auto split: if_splits)
    from Cons.IH [OF Cons.prems(1) this] show ?thesis .
  next
    case False
    then have f: "m \<noteq> fm" "length wdl \<le> m \<or> wdl ! m \<noteq> None" by auto
    show ?thesis
    proof (cases "length wdl \<le> m")
      case True
      with f Cons.prems show ?thesis by simp
    next
      case len: False
      with f obtain y where g: "wdl ! m = Some y" by auto
      show ?thesis
      proof (cases "rec (moveseq @ str_move m) (- beta) (- alpha) tt")
        case (Inl e)
        with f(1) len g Cons.prems(2) show ?thesis by simp
      next
        case (Inr p)
        obtain r t1 where p: "p = (r, t1)" by (cases p)
        from rec Cons.prems(1) Inr [unfolded p] have q: "Q t1" by blast
        from f(1) len g Cons.prems(2) Inr p
        have "rest_loop rec moveseq wdl fm alpha beta t1 mvs = Inr tt'"
          by (simp split: if_splits)
        from Cons.IH [OF q this] show ?thesis .
      qed
    qed
  qed
qed

lemma cutoff_branch_store:
  assumes rec: "\<forall>s a b t r t'. Q t \<longrightarrow> rec s a b t = Inr (r, t') \<longrightarrow> Q t'"
    and q: "Q tt"
    and ret: "cutoff_branch rec ms board wdl val ub alpha beta tt = Inr (res, tt')"
  shows "\<exists>tt1. Q tt1 \<and> store tt1 board val ((val + 1) + ((ub + 1) * 16)) = Inr (res, tt')"
proof (cases "first_best wdl val MOVE_ORDERING")
  case (Inl e)
  with ret show ?thesis by (simp add: cutoff_branch_def)
next
  case (Inr mo)
  show ?thesis
  proof (cases mo)
    case None
    with Inr ret q show ?thesis by (auto simp: cutoff_branch_def)
  next
    case (Some m)
    show ?thesis
    proof (cases "rec (ms @ str_move m) (- beta) (- alpha) tt")
      case (Inl e)
      with Inr Some ret show ?thesis by (simp add: cutoff_branch_def)
    next
      case child: (Inr p)
      obtain r t1 where p: "p = (r, t1)" by (cases p)
      from rec q child [unfolded p] have "Q t1" by blast
      moreover from ret Inr Some child p
      have "store t1 board val ((val + 1) + ((ub + 1) * 16)) = Inr (res, tt')"
        by (auto simp: cutoff_branch_def split: if_splits)
      ultimately show ?thesis by blast
    qed
  qed
qed

lemma pv_branch_store:
  assumes rec: "\<forall>s a b t r t'. Q t \<longrightarrow> rec s a b t = Inr (r, t') \<longrightarrow> Q t'"
    and q: "Q tt"
    and ret: "pv_branch rec ms board wdl val alpha beta tt = Inr (res, tt')"
  shows "\<exists>tt2. Q tt2 \<and> store tt2 board val ((val + 1) + ((val + 1) * 16)) = Inr (res, tt')"
proof (cases "first_best wdl val MOVE_ORDERING")
  case (Inl e)
  with ret show ?thesis by (simp add: pv_branch_def)
next
  case (Inr mo)
  show ?thesis
  proof (cases mo)
    case None
    with Inr ret show ?thesis by (simp add: pv_branch_def)
  next
    case (Some fm)
    show ?thesis
    proof (cases "rec (ms @ str_move fm) (- alpha - 1) (- alpha) tt")
      case (Inl e)
      with Inr Some ret show ?thesis by (simp add: pv_branch_def)
    next
      case child: (Inr p)
      obtain r t1 where p: "p = (r, t1)" by (cases p)
      from rec q child [unfolded p] have q1: "Q t1" by blast
      from ret Inr Some child p obtain tt2 where
        rl: "rest_loop rec ms wdl fm (max alpha val) beta t1 MOVE_ORDERING = Inr tt2"
        and st: "store tt2 board val ((val + 1) + ((val + 1) * 16)) = Inr (res, tt')"
        by (auto simp: pv_branch_def split: if_splits sum.splits)
      from rest_loop_preserves [OF rec q1 rl] st show ?thesis by blast
    qed
  qed
qed

lemma search_node_store:
  assumes rec: "\<forall>s a b t r t'. Q t \<longrightarrow> rec s a b t = Inr (r, t') \<longrightarrow> Q t'"
    and q: "Q tt"
    and ret: "search_node rec query ms board ub alpha beta tt = Inr (res, tt')"
  shows "\<exists>tt1. Q tt1 \<and>
      TT_set tt1 board (if fst (query ms) then (res + 1) + 16 * (res + 1)
                        else if beta \<le> res then (res + 1) + 16 * (ub + 1)
                        else (res + 1) + 16 * (res + 1)) = Inr tt' \<and>
      (if fst (query ms) then terminal_value query ms = Inr res
       else py_max (defined_vals (snd (query ms))) = Inr res)"
proof (cases "fst (query ms)")
  case True
  with ret obtain val where tv: "terminal_value query ms = Inr val"
    and st: "store tt board val ((val + 1) + ((val + 1) * 16)) = Inr (res, tt')"
    by (auto simp: search_node_def split: sum.splits)
  from store_Inr [OF st] tv True q show ?thesis by (auto simp: mult.commute)
next
  case False
  let ?wdl = "snd (query ms)"
  from False ret obtain v where pm: "py_max (defined_vals ?wdl) = Inr v"
    and br: "(if beta \<le> v then cutoff_branch rec ms board ?wdl v ub alpha beta tt
             else pv_branch rec ms board ?wdl v alpha beta tt) = Inr (res, tt')"
    by (auto simp: search_node_def split: sum.splits)
  show ?thesis
  proof (cases "beta \<le> v")
    case True
    with br cutoff_branch_store [OF rec q] obtain tt1 where
      "Q tt1" and st: "store tt1 board v ((v + 1) + ((ub + 1) * 16)) = Inr (res, tt')"
      by fastforce
    with store_Inr [OF st] pm True False show ?thesis by (auto simp: mult.commute)
  next
    case nocut: False
    with br pv_branch_store [OF rec q] obtain tt2 where
      "Q tt2" and st: "store tt2 board v ((v + 1) + ((v + 1) * 16)) = Inr (res, tt')"
      by fastforce
    with store_Inr [OF st] pm nocut False show ?thesis by (auto simp: mult.commute)
  qed
qed

lemma search_body_store:
  assumes bp: "by_position query" and rng: "values_in_range query"
    and rec: "\<forall>s a b t r t'. Q t \<longrightarrow> rec s a b t = Inr (r, t') \<longrightarrow> Q t'"
    and q: "Q tt" and ok: "table_ok query tt"
    and ret: "search_body rec query ms alpha beta tt = Inr (res, tt')"
  shows "\<exists>board r. moveseq_to_board49 ms 7 6 = Inr board \<and> TT_get tt board = Inr r \<and>
     (if probe_continues alpha beta r then
        (\<exists>tt1. Q tt1 \<and>
           TT_set tt1 board (if fst (query ms) then (res + 1) + 16 * (res + 1)
                             else if probe_beta beta r \<le> res then (res + 1) + 16 * (probe_ub r + 1)
                             else (res + 1) + 16 * (res + 1)) = Inr tt' \<and>
           record_ok query board (if fst (query ms) then (res + 1) + 16 * (res + 1)
                             else if probe_beta beta r \<le> res then (res + 1) + 16 * (probe_ub r + 1)
                             else (res + 1) + 16 * (res + 1)))
      else tt' = tt)"
proof -
  from ret obtain board where enc: "moveseq_to_board49 ms 7 6 = Inr board"
    by (auto simp: search_body_def split: sum.splits)
  from ret enc obtain r where probe: "TT_get tt board = Inr r"
    by (auto simp: search_body_def split: sum.splits)
  have same: "query s = query ms" if "moveseq_to_board49 s 7 6 = Inr board" for s
    using bp that enc unfolding by_position_def by blast
  have in_range: "- 1 \<le> x \<and> x \<le> 1" if "Some x \<in> set (snd (query ms))" for x
    using rng that unfolding values_in_range_def by blast
  show ?thesis
  proof (cases "probe_continues alpha beta r")
    case False
    with ret enc probe have "tt' = tt"
      by (cases r) (auto simp: search_body_def probe_continues_def Let_def split: if_splits)
    with enc probe False show ?thesis by simp
  next
    case True
    let ?ub = "probe_ub r" and ?b = "probe_beta beta r"
    let ?p = "if fst (query ms) then (res + 1) + 16 * (res + 1)
              else if ?b \<le> res then (res + 1) + 16 * (?ub + 1)
              else (res + 1) + 16 * (res + 1)"
    from ret have "search_node rec query ms board ?ub (probe_alpha alpha r) ?b tt = Inr (res, tt')"
      by (simp add: search_body_node [OF enc probe True])
    from search_node_store [OF rec q this] obtain tt1 where q1: "Q tt1"
      and st: "TT_set tt1 board ?p = Inr tt'"
      and val: "if fst (query ms) then terminal_value query ms = Inr res
                else py_max (defined_vals (snd (query ms))) = Inr res"
      by blast
    have rok: "record_ok query board ?p"
    proof (cases "fst (query ms)")
      case is_term: True
      with val have "res = - 1 \<or> res = 0" by (auto dest: terminal_value_cases)
      then have r: "- 1 \<le> res" "res \<le> 1" by auto
      from is_term same have "\<forall>s v. moveseq_to_board49 s 7 6 = Inr board \<longrightarrow> \<not> fst (query s) \<longrightarrow>
           Some v \<in> set (snd (query s)) \<longrightarrow> v \<le> res" by simp
      with r have "record_ok query board ((res + 1) + 16 * (res + 1))"
        by (intro record_okI) simp_all
      with is_term show ?thesis by (simp only: if_True)
    next
      case nonterm: False
      with val have "py_max (defined_vals (snd (query ms))) = Inr res" by simp
      then have mem: "Some res \<in> set (snd (query ms))"
        and top: "\<forall>x. Some x \<in> set (snd (query ms)) \<longrightarrow> x \<le> res"
        by (simp_all add: py_max_defined)
      from in_range [OF mem] have r: "- 1 \<le> res" "res \<le> 1" by simp_all
      have below: "\<forall>s v. moveseq_to_board49 s 7 6 = Inr board \<longrightarrow> \<not> fst (query s) \<longrightarrow>
           Some v \<in> set (snd (query s)) \<longrightarrow> v \<le> res"
        using same top by simp
      have ub: "res \<le> ?ub \<and> ?ub \<le> 1"
      proof (cases r)
        case None
        with r show ?thesis by (simp add: probe_ub_def)
      next
        case (Some v0)
        with probe ok have "record_ok query board v0" by (auto dest: table_ok_get)
        with enc nonterm mem Some show ?thesis
          by (auto simp: record_ok_def probe_ub_def)
      qed
      show ?thesis
      proof (cases "?b \<le> res")
        case True
        from below ub have "\<forall>s v. moveseq_to_board49 s 7 6 = Inr board \<longrightarrow> \<not> fst (query s) \<longrightarrow>
           Some v \<in> set (snd (query s)) \<longrightarrow> v \<le> ?ub"
          by (meson order_trans)
        with r ub have "record_ok query board ((res + 1) + 16 * (?ub + 1))"
          by (intro record_okI) simp_all
        with nonterm True show ?thesis by (simp only: if_True if_False)
      next
        case False
        from r below have "record_ok query board ((res + 1) + 16 * (res + 1))"
          by (intro record_okI) simp_all
        with nonterm False show ?thesis by (simp only: if_False)
      qed
    qed
    from q1 st rok have "\<exists>tt1. Q tt1 \<and> TT_set tt1 board ?p = Inr tt' \<and> record_ok query board ?p"
      by blast
    with enc probe True show ?thesis
      by (intro exI [of _ board] exI [of _ r] conjI) (simp_all only: if_True)
  qed
qed

lemma search_table_ok:
  assumes bp: "by_position query" and rng: "values_in_range query"
  shows "table_ok query tt \<Longrightarrow> search n query ms alpha beta tt = Inr (res, tt') \<Longrightarrow>
         table_ok query tt'"
proof (induction n arbitrary: ms alpha beta tt res tt')
  case 0
  then show ?case by simp
next
  case (Suc n)
  from Suc.prems(2) have "search_body (search n query) query ms alpha beta tt = Inr (res, tt')"
    by simp
  moreover have "\<forall>s a b t r t'. table_ok query t \<longrightarrow> search n query s a b t = Inr (r, t') \<longrightarrow>
      table_ok query t'"
    using Suc.IH by blast
  ultimately show ?case
    using search_body_store [where Q = "table_ok query" and rec = "search n query", OF bp rng _
        Suc.prems(1) Suc.prems(1), of ms alpha beta res tt'] Suc.prems(1) by (auto split: if_splits intro: table_ok_set)
qed

lemma reachable_table_ok:
  assumes "by_position query" and "values_in_range query" and "reachable query tt"
  shows "table_ok query tt"
  using assms(3)
  by (induction rule: reachable.induct) (auto intro: table_ok_new search_table_ok [OF assms(1,2)])

text \<open>
  C5. Let the oracle answer by position with values in \<open>- 1 .. 1\<close>, and let the
  table be one a run can see (the constructor's, or one left by a returning
  call of \<^verbatim>\<open>search\<close> on such a table). A call that returns has either returned
  at the table probe and stored nothing, or has stored one record as its last
  action, in a table a run can see: \<open>(v + 1) + 16 * (v + 1)\<close> in the terminal
  branch and in the principal-variation branch, \<open>(v + 1) + 16 * (ub + 1)\<close> in the
  cutoff branch, \<open>v\<close> being the returned value and \<open>ub\<close> the probe's upper bound.
  The stored record unpacks to \<open>- 1 \<le> lb \<le> ub \<le> 1\<close>, and so does every record
  \<^verbatim>\<open>get\<close> finds in the table the call leaves. Every nested call is itself such a
  call on such a table.
\<close>

theorem search_store_bounds:
  assumes "by_position query" and "values_in_range query" and "reachable query tt"
    and "search n query ms alpha beta tt = Inr (res, tt')"
  shows "\<exists>board r. moveseq_to_board49 ms 7 6 = Inr board \<and> TT_get tt board = Inr r \<and>
     (if probe_continues alpha beta r then
        (\<exists>tt1 packed. reachable query tt1 \<and>
           packed = (if fst (query ms) then (res + 1) + 16 * (res + 1)
                     else if probe_beta beta r \<le> res then (res + 1) + 16 * (probe_ub r + 1)
                     else (res + 1) + 16 * (res + 1)) \<and>
           TT_set tt1 board packed = Inr tt' \<and>
           - 1 \<le> packed mod 16 - 1 \<and> packed mod 16 - 1 \<le> packed div 16 - 1 \<and>
           packed div 16 - 1 \<le> 1)
      else tt' = tt) \<and>
     (\<forall>k p. TT_get tt' k = Inr (Some p) \<longrightarrow>
        - 1 \<le> p mod 16 - 1 \<and> p mod 16 - 1 \<le> p div 16 - 1 \<and> p div 16 - 1 \<le> 1)"
proof -
  note ok = reachable_table_ok [OF assms(1,2)]
  from assms(4) obtain m where n: "n = Suc m" by (cases n) simp_all
  with assms(4) have body: "search_body (search m query) query ms alpha beta tt = Inr (res, tt')"
    by simp
  have rec: "\<forall>s a b t r t'. reachable query t \<longrightarrow> search m query s a b t = Inr (r, t') \<longrightarrow>
      reachable query t'"
    by (blast intro: reachable.call)
  from search_body_store [OF assms(1,2) rec assms(3) ok [OF assms(3)] body]
  obtain board r where enc: "moveseq_to_board49 ms 7 6 = Inr board"
    and probe: "TT_get tt board = Inr r"
    and st: "if probe_continues alpha beta r then
        (\<exists>tt1. reachable query tt1 \<and>
           TT_set tt1 board (if fst (query ms) then (res + 1) + 16 * (res + 1)
                             else if probe_beta beta r \<le> res then (res + 1) + 16 * (probe_ub r + 1)
                             else (res + 1) + 16 * (res + 1)) = Inr tt' \<and>
           record_ok query board (if fst (query ms) then (res + 1) + 16 * (res + 1)
                             else if probe_beta beta r \<le> res then (res + 1) + 16 * (probe_ub r + 1)
                             else (res + 1) + 16 * (res + 1)))
      else tt' = tt"
    by blast
  have "reachable query tt'" by (rule reachable.call [OF assms(3,4)])
  from ok [OF this] have after: "\<forall>k p. TT_get tt' k = Inr (Some p) \<longrightarrow>
        - 1 \<le> p mod 16 - 1 \<and> p mod 16 - 1 \<le> p div 16 - 1 \<and> p div 16 - 1 \<le> 1"
    by (auto dest: table_ok_get simp: record_ok_def)
  show ?thesis
  proof (cases "probe_continues alpha beta r")
    case True
    let ?p = "if fst (query ms) then (res + 1) + 16 * (res + 1)
              else if probe_beta beta r \<le> res then (res + 1) + 16 * (probe_ub r + 1)
              else (res + 1) + 16 * (res + 1)"
    from True st obtain tt1 where t1: "reachable query tt1" "TT_set tt1 board ?p = Inr tt'"
      and rec_ok: "record_ok query board ?p"
      by auto
    from rec_ok have b: "- 1 \<le> ?p mod 16 - 1 \<and> ?p mod 16 - 1 \<le> ?p div 16 - 1 \<and> ?p div 16 - 1 \<le> 1"
      unfolding record_ok_def by blast
    have "\<exists>tt1 packed. reachable query tt1 \<and> packed = ?p \<and> TT_set tt1 board packed = Inr tt' \<and>
        - 1 \<le> packed mod 16 - 1 \<and> packed mod 16 - 1 \<le> packed div 16 - 1 \<and> packed div 16 - 1 \<le> 1"
      using t1 b by blast
    with enc probe True after show ?thesis
      by (intro exI [of _ board] exI [of _ r] conjI) (simp_all only: if_True)
  next
    case False
    with st enc probe after show ?thesis by auto
  qed
qed

subsection \<open>A two-ply example\<close>

text \<open>
  A test oracle: after the single move \<open>3\<close> the position is not terminal and
  column 3 is the only move, with value 1; every other position is terminal.
  The table has capacity 4.
\<close>

definition example_oracle :: wdl_oracle where
  "example_oracle s =
     (if s = ''3'' then (False, [None, None, None, Some 1, None, None, None])
      else (True, [None, None, None, None, None, None, None]))"

lemma enc_3: "moveseq_to_board49 ''3'' 7 6 = Inr 2097152"
  by code_simp

lemma enc_33: "moveseq_to_board49 ''33'' 7 6 = Inr 10485760"
  by code_simp

lemma str_move_3: "str_move 3 = ''3''"
  by code_simp

lemma home_4_boards: "home 4 2097153 = 2" "home 4 10485761 = 3"
  by (simp_all add: home_def hash64_def mask64_def Let_def)

lemma get_empty_3: "TT_get \<lparr>cap = 4, slots = [0, 0, 0, 0], size_tt = n\<rparr> 2097152 = Inr None"
  by (simp add: TT_get_def KEY_MAX_def home_4_boards get_loop.simps)

lemma get_empty_33: "TT_get \<lparr>cap = 4, slots = [0, 0, 0, 0], size_tt = n\<rparr> 10485760 = Inr None"
  by (simp add: TT_get_def KEY_MAX_def home_4_boards get_loop.simps)

lemma set_empty_33:
  "TT_set \<lparr>cap = 4, slots = [0, 0, 0, 0], size_tt = n\<rparr> 10485760 0 =
   Inr \<lparr>cap = 4, slots = [0, 0, 0, 10485761], size_tt = n + 1\<rparr>"
  by (simp add: TT_set_def KEY_MAX_def home_4_boards set_loop.simps VAL_SHIFT_def)

lemma set_3_34:
  "TT_set \<lparr>cap = 4, slots = [0, 0, 0, 10485761], size_tt = n\<rparr> 2097152 34 =
   Inr \<lparr>cap = 4, slots = [0, 0, 38280596834746369, 10485761], size_tt = n + 1\<rparr>"
  by (simp add: TT_set_def KEY_MAX_def home_4_boards set_loop.simps VAL_SHIFT_def)

lemma child_from_empty:
  "search (Suc k) example_oracle ''33'' (- 1) 1 \<lparr>cap = 4, slots = [0, 0, 0, 0], size_tt = n\<rparr> =
   Inr (- 1, \<lparr>cap = 4, slots = [0, 0, 0, 10485761], size_tt = n + 1\<rparr>)"
  by (simp add: search_body_def search_node_def terminal_value_def store_def example_oracle_def
      enc_33 get_empty_33 set_empty_33)

lemma run_from_empty:
  "search (Suc (Suc k)) example_oracle ''3'' (- 1) 1 \<lparr>cap = 4, slots = [0, 0, 0, 0], size_tt = n\<rparr> =
   Inr (1, \<lparr>cap = 4, slots = [0, 0, 38280596834746369, 10485761], size_tt = n + 2\<rparr>)"
  unfolding search.simps(2) [of "Suc k"]
  by (simp add: search_body_def search_node_def cutoff_branch_def store_def example_oracle_def
      enc_3 get_empty_3 defined_vals_def MOVE_ORDERING_def str_move_3 child_from_empty set_3_34
      del: search.simps)

subsection \<open>A full board\<close>










theorem search_cutoff_store_witness:
  "search 2 example_oracle ''3'' (- 1) 1 \<lparr>cap = 4, slots = [0, 0, 0, 0], size_tt = 0\<rparr> =
     Inr (1, \<lparr>cap = 4, slots = [0, 0, 38280596834746369, 10485761], size_tt = 2\<rparr>) \<and>
   (\<exists>tt1. TT_set tt1 2097152 ((1 + 1) + 16 * (1 + 1)) =
     Inr \<lparr>cap = 4, slots = [0, 0, 38280596834746369, 10485761], size_tt = 2\<rparr>)"
proof -
  let ?E = "\<lparr>cap = 4, slots = [0, 0, 0, 0], size_tt = 0\<rparr>"
  let ?T = "\<lparr>cap = 4, slots = [0, 0, 38280596834746369, 10485761], size_tt = 2\<rparr>"
  have run: "search (Suc (Suc 0)) example_oracle ''3'' (- 1) 1 ?E = Inr (1, ?T)"
    using run_from_empty [of 0 0] by simp
  have cont: "probe_continues (- 1) 1 None" by (simp add: probe_continues_def)
  have nt: "\<not> fst (example_oracle ''3'')" by (simp add: example_oracle_def)
  have vmem: "Some 1 \<in> set (snd (example_oracle ''3''))" by (simp add: example_oracle_def)
  have vmax: "\<forall>x. Some x \<in> set (snd (example_oracle ''3'')) \<longrightarrow> x \<le> 1"
    by (simp add: example_oracle_def)
  have cut: "probe_beta 1 None \<le> 1" by (simp add: probe_beta_def)
  from search_cutoff_store [OF enc_3 get_empty_3 cont nt vmem vmax cut run]
  have "\<exists>tt1. TT_set tt1 2097152 ((1 + 1) + 16 * (probe_ub None + 1)) = Inr ?T" by blast
  then have "\<exists>tt1. TT_set tt1 2097152 ((1 + 1) + 16 * (1 + 1)) = Inr ?T"
    by (simp add: probe_ub_def)
  with run show ?thesis by (simp add: numeral_2_eq_2 del: search.simps)
qed

subsection \<open>An oracle that answers by position\<close>

text \<open>
  The two-ply example again, with the oracle reading the board and not the
  move sequence: the position with a single stone in column 3 is not terminal
  and has the one move 3, of value 1; every other position is terminal.
\<close>

definition position_oracle :: wdl_oracle where
  "position_oracle s =
     (if moveseq_to_board49 s 7 6 = Inr 2097152
      then (False, [None, None, None, Some 1, None, None, None])
      else (True, [None, None, None, None, None, None, None]))"

lemma position_oracle_3:
  "position_oracle ''3'' = (False, [None, None, None, Some 1, None, None, None])"
  by (simp add: position_oracle_def enc_3)

lemma position_oracle_33:
  "position_oracle ''33'' = (True, [None, None, None, None, None, None, None])"
  by (simp add: position_oracle_def enc_33)

lemma by_position_example: "by_position position_oracle"
  by (simp add: by_position_def position_oracle_def)

lemma values_in_range_example: "values_in_range position_oracle"
  by (auto simp: values_in_range_def position_oracle_def split: if_splits)

lemma position_child:
  "search (Suc k) position_oracle ''33'' (- 1) 1 \<lparr>cap = 4, slots = [0, 0, 0, 0], size_tt = n\<rparr> =
   Inr (- 1, \<lparr>cap = 4, slots = [0, 0, 0, 10485761], size_tt = n + 1\<rparr>)"
  by (simp add: search_body_def search_node_def terminal_value_def store_def position_oracle_33
      enc_33 get_empty_33 set_empty_33)

lemma position_run:
  "search (Suc (Suc k)) position_oracle ''3'' (- 1) 1 \<lparr>cap = 4, slots = [0, 0, 0, 0], size_tt = n\<rparr> =
   Inr (1, \<lparr>cap = 4, slots = [0, 0, 38280596834746369, 10485761], size_tt = n + 2\<rparr>)"
  unfolding search.simps(2) [of "Suc k"]
  by (simp add: search_body_def search_node_def cutoff_branch_def store_def position_oracle_3
      enc_3 get_empty_3 defined_vals_def MOVE_ORDERING_def str_move_3 position_child set_3_34
      del: search.simps)

theorem search_store_bounds_witness:
  "by_position position_oracle \<and> values_in_range position_oracle \<and>
   reachable position_oracle \<lparr>cap = 4, slots = [0, 0, 0, 0], size_tt = 0\<rparr> \<and>
   search 2 position_oracle ''3'' (- 1) 1 \<lparr>cap = 4, slots = [0, 0, 0, 0], size_tt = 0\<rparr> =
     Inr (1, \<lparr>cap = 4, slots = [0, 0, 38280596834746369, 10485761], size_tt = 2\<rparr>) \<and>
   (\<exists>tt1. reachable position_oracle tt1 \<and>
      TT_set tt1 2097152 34 =
        Inr \<lparr>cap = 4, slots = [0, 0, 38280596834746369, 10485761], size_tt = 2\<rparr>) \<and>
   - 1 \<le> (34::int) mod 16 - 1 \<and> (34::int) mod 16 - 1 \<le> 34 div 16 - 1 \<and> (34::int) div 16 - 1 \<le> 1"
proof -
  let ?E = "\<lparr>cap = 4, slots = [0, 0, 0, 0], size_tt = 0\<rparr>"
  let ?T = "\<lparr>cap = 4, slots = [0, 0, 38280596834746369, 10485761], size_tt = 2\<rparr>"
  have "TT_new 4 = Inr ?E" by code_simp
  then have reach: "reachable position_oracle ?E" by (rule reachable.new)
  have run: "search (Suc (Suc 0)) position_oracle ''3'' (- 1) 1 ?E = Inr (1, ?T)"
    using position_run [of 0 0] by simp
  from search_store_bounds [OF by_position_example values_in_range_example reach run]
  obtain board r where b: "moveseq_to_board49 ''3'' 7 6 = Inr board"
    and g: "TT_get ?E board = Inr r"
    and st: "if probe_continues (- 1) 1 r then
        (\<exists>tt1 packed. reachable position_oracle tt1 \<and>
           packed = (if fst (position_oracle ''3'') then (1 + 1) + 16 * (1 + 1)
                     else if probe_beta 1 r \<le> 1 then (1 + 1) + 16 * (probe_ub r + 1)
                     else (1 + 1) + 16 * (1 + 1)) \<and>
           TT_set tt1 board packed = Inr ?T \<and>
           - 1 \<le> packed mod 16 - 1 \<and> packed mod 16 - 1 \<le> packed div 16 - 1 \<and>
           packed div 16 - 1 \<le> 1)
      else ?T = ?E"
    by blast
  from b enc_3 have board: "board = 2097152" by simp
  with g get_empty_3 [of 0] have r: "r = None" by simp
  from st have "\<exists>tt1. reachable position_oracle tt1 \<and> TT_set tt1 2097152 34 = Inr ?T"
    unfolding board r
    by (simp add: probe_continues_def probe_beta_def probe_ub_def position_oracle_3)
  with by_position_example values_in_range_example reach run show ?thesis
    by (simp add: numeral_2_eq_2 del: search.simps)
qed

subsection \<open>Termination and the depth of the recursion\<close>

lemma board49_loop_error:
  "moveseq_to_board49_loop w H ply hs ps s = Inl e \<Longrightarrow>
   e = InvalidMoveChar \<or> e = MoveOutOfRange \<or> e = ColumnFull"
  by (induction s arbitrary: ply hs ps) (auto simp: Let_def split: if_splits)

lemma board49_error:
  "moveseq_to_board49 s 7 6 = Inl e \<Longrightarrow> e = InvalidMoveChar \<or> e = MoveOutOfRange \<or> e = ColumnFull"
  by (auto simp: moveseq_to_board49_def split: sum.splits dest: board49_loop_error)

lemma board49_loop_sum:
  "moveseq_to_board49_loop w H ply hs ps s = Inr (hs', ps') \<Longrightarrow> length hs = w \<Longrightarrow>
   sum_list hs' = sum_list hs + length s"
proof (induction s arbitrary: ply hs ps)
  case Nil
  then show ?case by simp
next
  case (Cons ch s)
  let ?col = "col_of ch"
  from Cons.prems have ok: "is_digit ch" "?col < w" "hs ! ?col < H"
    by (auto split: if_splits)
  let ?hs = "hs[?col := hs ! ?col + 1]"
  from Cons.prems ok obtain ps1 where
    "moveseq_to_board49_loop w H (ply + 1) ?hs ps1 s = Inr (hs', ps')"
    by (auto simp: Let_def split: if_splits)
  from Cons.IH [OF this] Cons.prems(2) have "sum_list hs' = sum_list ?hs + length s" by simp
  moreover have "sum_list ?hs = sum_list hs + 1"
    using ok(2) Cons.prems(2) by (simp add: sum_list_update)
  ultimately show ?case by simp
qed

lemma sum_list_bounded: "\<forall>x\<in>set xs. x \<le> (B::nat) \<Longrightarrow> sum_list xs \<le> length xs * B"
  by (induction xs) auto

lemma board49_length:
  assumes "moveseq_to_board49 s 7 6 = Inr b"
  shows "length s \<le> 42"
proof -
  from assms obtain hs ps where
    run: "moveseq_to_board49_loop 7 6 0 (replicate 7 0) (replicate 7 0) s = Inr (hs, ps)"
    and ok: "cols_ok 7 6 hs ps"
    by (rule board49_Inr)
  from board49_loop_sum [OF run] have "sum_list hs = length s" by simp
  moreover from ok have "length hs = 7" "\<forall>x\<in>set hs. x \<le> 6"
    by (auto simp: cols_ok_def in_set_conv_nth)
  then have "sum_list hs \<le> 7 * 6" using sum_list_bounded [of hs 6] by simp
  ultimately show ?thesis by simp
qed

lemma TT_get_error:
  "TT_get t k = Inl e \<Longrightarrow> e = KeyOutOfRange \<or> e = ZeroDivision \<or> e = IndexError"
  by (auto simp: TT_get_def split: if_splits sum.splits dest: get_loop_error)

lemma TT_set_error:
  "TT_set t k v = Inl e \<Longrightarrow>
   e = KeyOutOfRange \<or> e = ValueOutOfRange \<or> e = ZeroDivision \<or> e = IndexError"
  by (auto simp: TT_set_def Let_def split: if_splits sum.splits set_exit.splits dest: set_loop_error)

lemma store_fuel: "store t board val packed \<noteq> Inl OutOfFuel"
  by (auto simp: store_def split: sum.splits dest: TT_set_error)

lemma py_max_fuel: "py_max xs \<noteq> Inl OutOfFuel"
  by (cases xs) simp_all

lemma first_best_fuel: "first_best wdl val moves \<noteq> Inl OutOfFuel"
  by (induction moves) simp_all

lemma terminal_value_fuel: "terminal_value query ms \<noteq> Inl OutOfFuel"
  using py_max_fuel by (auto simp: terminal_value_def split: sum.splits)

lemma rest_loop_fuel:
  assumes "\<And>m a b t. rec (ms @ str_move m) a b t \<noteq> Inl OutOfFuel"
  shows "rest_loop rec ms wdl fm alpha beta tt moves \<noteq> Inl OutOfFuel"
proof (induction moves arbitrary: tt)
  case Nil
  show ?case by simp
next
  case (Cons m moves)
  show ?case
    using Cons.IH assms [of m "- beta" "- alpha" tt]
    by (auto split: sum.splits)
qed

lemma cutoff_branch_fuel:
  assumes "\<And>m a b t. rec (ms @ str_move m) a b t \<noteq> Inl OutOfFuel"
  shows "cutoff_branch rec ms board wdl val ub alpha beta tt \<noteq> Inl OutOfFuel"
  using assms first_best_fuel [of wdl val MOVE_ORDERING] store_fuel
  by (auto simp: cutoff_branch_def split: sum.splits option.splits)

lemma pv_branch_fuel:
  assumes "\<And>m a b t. rec (ms @ str_move m) a b t \<noteq> Inl OutOfFuel"
  shows "pv_branch rec ms board wdl val alpha beta tt \<noteq> Inl OutOfFuel"
  using assms first_best_fuel [of wdl val MOVE_ORDERING] store_fuel rest_loop_fuel [of rec ms, OF assms]
  by (auto simp: pv_branch_def split: sum.splits option.splits)

lemma search_node_fuel:
  assumes "\<And>m a b t. rec (ms @ str_move m) a b t \<noteq> Inl OutOfFuel"
  shows "search_node rec query ms board ub alpha beta tt \<noteq> Inl OutOfFuel"
  using terminal_value_fuel [of query ms] py_max_fuel store_fuel
    cutoff_branch_fuel [of rec ms, OF assms] pv_branch_fuel [of rec ms, OF assms]
  by (auto simp: search_node_def split: sum.splits)

lemma search_body_fuel:
  assumes "\<And>m a b t. rec (ms @ str_move m) a b t \<noteq> Inl OutOfFuel"
  shows "search_body rec query ms alpha beta tt \<noteq> Inl OutOfFuel"
  using search_node_fuel [of rec ms, OF assms]
  by (auto simp: search_body_def Let_def split: sum.splits option.splits
      dest: board49_error TT_get_error)

lemma search_fuel:
  "0 < n \<Longrightarrow> 44 \<le> n + length ms \<Longrightarrow> search n query ms alpha beta tt \<noteq> Inl OutOfFuel"
proof (induction n arbitrary: ms alpha beta tt)
  case 0
  then show ?case by simp
next
  case (Suc n)
  show ?case
  proof (cases "moveseq_to_board49 ms 7 6")
    case (Inl e)
    then show ?thesis using board49_error [OF Inl] by (auto simp: search_body_def)
  next
    case (Inr b)
    from board49_length [OF Inr] Suc.prems have n: "0 < n" "43 \<le> n + length ms" by simp_all
    have "search n query (ms @ str_move m) a b' t \<noteq> Inl OutOfFuel" for m a b' t
      using n by (intro Suc.IH) (simp_all add: str_move_def)
    then show ?thesis by (simp add: search_body_fuel)
  qed
qed


text \<open>More budget never changes a result that was reached within the budget.\<close>

lemma rest_loop_mono:
  assumes agree: "\<And>s a b t. rec s a b t \<noteq> Inl OutOfFuel \<Longrightarrow> rec' s a b t = rec s a b t"
    and "rest_loop rec ms wdl fm alpha beta tt moves \<noteq> Inl OutOfFuel"
  shows "rest_loop rec' ms wdl fm alpha beta tt moves = rest_loop rec ms wdl fm alpha beta tt moves"
  using assms(2)
proof (induction moves arbitrary: tt)
  case Nil
  show ?case by simp
next
  case (Cons m moves)
  show ?case
  proof (cases "m = fm \<or> length wdl \<le> m \<or> wdl ! m = None")
    case True
    then consider "m = fm" | "m \<noteq> fm" "length wdl \<le> m"
      | "m \<noteq> fm" "\<not> length wdl \<le> m" "wdl ! m = None" by argo
    then show ?thesis
    proof cases
      case 1
      with Cons.prems have "rest_loop rec ms wdl fm alpha beta tt moves \<noteq> Inl OutOfFuel" by simp
      from Cons.IH [OF this] 1 show ?thesis by simp
    next
      case 2
      then show ?thesis by simp
    next
      case 3
      with Cons.prems have "rest_loop rec ms wdl fm alpha beta tt moves \<noteq> Inl OutOfFuel" by simp
      from Cons.IH [OF this] 3 show ?thesis by simp
    qed
  next
    case False
    then have f: "m \<noteq> fm" "\<not> length wdl \<le> m" "wdl ! m \<noteq> None" by auto
    let ?c = "rec (ms @ str_move m) (- beta) (- alpha) tt"
    from Cons.prems have "?c \<noteq> Inl OutOfFuel" by (auto simp: f)
    from agree [OF this] have same: "rec' (ms @ str_move m) (- beta) (- alpha) tt = ?c" .
    show ?thesis
    proof (cases ?c)
      case (Inl e)
      then show ?thesis by (simp add: f same)
    next
      case (Inr p)
      obtain r tt1 where p: "p = (r, tt1)" by (cases p)
      show ?thesis
      proof (cases "- r \<le> alpha")
        case True
        with Inr p Cons.prems have "rest_loop rec ms wdl fm alpha beta tt1 moves \<noteq> Inl OutOfFuel"
          by (simp add: f)
        from Cons.IH [OF this] Inr p True show ?thesis by (simp add: f same)
      next
        case no: False
        with Inr p show ?thesis by (simp add: f same)
      qed
    qed
  qed
qed

lemma cutoff_branch_mono:
  assumes agree: "\<And>s a b t. rec s a b t \<noteq> Inl OutOfFuel \<Longrightarrow> rec' s a b t = rec s a b t"
    and ret: "cutoff_branch rec ms board wdl val ub alpha beta tt \<noteq> Inl OutOfFuel"
  shows "cutoff_branch rec' ms board wdl val ub alpha beta tt =
         cutoff_branch rec ms board wdl val ub alpha beta tt"
proof (cases "first_best wdl val MOVE_ORDERING")
  case (Inl e)
  then show ?thesis by (simp add: cutoff_branch_def)
next
  case (Inr mo)
  show ?thesis
  proof (cases mo)
    case None
    with Inr show ?thesis by (simp add: cutoff_branch_def)
  next
    case (Some m)
    from ret Inr Some have "rec (ms @ str_move m) (- beta) (- alpha) tt \<noteq> Inl OutOfFuel"
      by (auto simp: cutoff_branch_def)
    from agree [OF this] Inr Some show ?thesis by (simp add: cutoff_branch_def)
  qed
qed

lemma pv_branch_mono:
  assumes agree: "\<And>s a b t. rec s a b t \<noteq> Inl OutOfFuel \<Longrightarrow> rec' s a b t = rec s a b t"
    and ret: "pv_branch rec ms board wdl val alpha beta tt \<noteq> Inl OutOfFuel"
  shows "pv_branch rec' ms board wdl val alpha beta tt = pv_branch rec ms board wdl val alpha beta tt"
proof (cases "first_best wdl val MOVE_ORDERING")
  case (Inl e)
  then show ?thesis by (simp add: pv_branch_def)
next
  case (Inr mo)
  show ?thesis
  proof (cases mo)
    case None
    with Inr show ?thesis by (simp add: pv_branch_def)
  next
    case (Some m)
    let ?c = "rec (ms @ str_move m) (- alpha - 1) (- alpha) tt"
    from ret Inr Some have "?c \<noteq> Inl OutOfFuel" by (auto simp: pv_branch_def)
    from agree [OF this] have same: "rec' (ms @ str_move m) (- alpha - 1) (- alpha) tt = ?c" .
    show ?thesis
    proof (cases ?c)
      case (Inl e)
      with Inr Some same show ?thesis by (simp add: pv_branch_def)
    next
      case child: (Inr p)
      obtain r tt1 where p: "p = (r, tt1)" by (cases p)
      show ?thesis
      proof (cases "- r = val \<and> - r < beta")
        case False
        with Inr Some same child p show ?thesis by (auto simp: pv_branch_def)
      next
        case True
        with ret Inr Some child p
        have "rest_loop rec ms wdl m (max alpha val) beta tt1 MOVE_ORDERING \<noteq> Inl OutOfFuel"
          by (auto simp: pv_branch_def)
        from rest_loop_mono [of rec rec', OF agree this] Inr Some same child p True
        show ?thesis by (simp add: pv_branch_def)
      qed
    qed
  qed
qed

lemma search_body_mono:
  assumes agree: "\<And>s a b t. rec s a b t \<noteq> Inl OutOfFuel \<Longrightarrow> rec' s a b t = rec s a b t"
    and ret: "search_body rec query ms alpha beta tt \<noteq> Inl OutOfFuel"
  shows "search_body rec' query ms alpha beta tt = search_body rec query ms alpha beta tt"
proof -
  have node: "search_node rec' query ms board ub a b tt = search_node rec query ms board ub a b tt"
    if "search_node rec query ms board ub a b tt \<noteq> Inl OutOfFuel" for board ub a b
    using that cutoff_branch_mono [of rec rec', OF agree] pv_branch_mono [of rec rec', OF agree]
    by (auto simp: search_node_def split: sum.splits)
  show ?thesis
    using ret node
    by (auto simp: search_body_def Let_def split: sum.splits option.splits)
qed

lemma search_Suc_same:
  "search n query ms alpha beta tt \<noteq> Inl OutOfFuel \<Longrightarrow>
   search (Suc n) query ms alpha beta tt = search n query ms alpha beta tt"
proof (induction n arbitrary: ms alpha beta tt)
  case 0
  then show ?case by simp
next
  case (Suc n)
  have "search_body (search (Suc n) query) query ms alpha beta tt =
        search_body (search n query) query ms alpha beta tt"
  proof (rule search_body_mono)
    show "search (Suc n) query s a b t = search n query s a b t"
      if "search n query s a b t \<noteq> Inl OutOfFuel" for s a b t
      using that by (rule Suc.IH)
    show "search_body (search n query) query ms alpha beta tt \<noteq> Inl OutOfFuel"
      using Suc.prems by simp
  qed
  then show ?case by simp
qed

lemma search_more_fuel:
  "search n query ms alpha beta tt \<noteq> Inl OutOfFuel \<Longrightarrow>
   search (n + k) query ms alpha beta tt = search n query ms alpha beta tt"
proof (induction k)
  case 0
  show ?case by simp
next
  case (Suc k)
  then have "search (n + k) query ms alpha beta tt \<noteq> Inl OutOfFuel" by simp
  from search_Suc_same [OF this] Suc show ?case by simp
qed

text \<open>
  C10. With the oracle a total function, \<^verbatim>\<open>search\<close> terminates on every move
  sequence: a budget of \<open>44 - len(moveseq)\<close> nested calls is never exhausted, and
  any larger budget gives the same result. The nesting is bounded because each
  recursive call appends one digit and a call on a sequence longer than 42
  ends at once with the error \<^verbatim>\<open>moveseq_to_board49\<close> raises, before any further
  call; so no call proceeds beyond 42 plies.
\<close>

theorem search_terminates:
  assumes "0 < n" and "44 \<le> n + length ms"
  shows "search n query ms alpha beta tt \<noteq> Inl OutOfFuel \<and>
         search (n + k) query ms alpha beta tt = search n query ms alpha beta tt \<and>
         (42 < length ms \<longrightarrow>
            (\<exists>e. moveseq_to_board49 ms 7 6 = Inl e \<and> search n query ms alpha beta tt = Inl e))"
proof -
  have a: "search n query ms alpha beta tt \<noteq> Inl OutOfFuel"
    by (rule search_fuel [OF assms])
  have c: "\<exists>e. moveseq_to_board49 ms 7 6 = Inl e \<and> search n query ms alpha beta tt = Inl e"
    if long: "42 < length ms"
  proof (cases "moveseq_to_board49 ms 7 6")
    case (Inr b)
    from board49_length [OF this] long show ?thesis by simp
  next
    case (Inl e)
    from assms(1) obtain n' where "n = Suc n'" by (cases n) auto
    with Inl show ?thesis by (simp add: search_body_def)
  qed
  from a search_more_fuel [OF a] c show ?thesis by blast
qed

theorem search_terminates_witness:
  "legal_moveseq ''3'' \<and>
   search 43 example_oracle ''3'' (- 1) 1 \<lparr>cap = 4, slots = [0, 0, 0, 0], size_tt = 0\<rparr> =
     Inr (1, \<lparr>cap = 4, slots = [0, 0, 38280596834746369, 10485761], size_tt = 2\<rparr>) \<and>
   search (43 + 7) example_oracle ''3'' (- 1) 1 \<lparr>cap = 4, slots = [0, 0, 0, 0], size_tt = 0\<rparr> =
     Inr (1, \<lparr>cap = 4, slots = [0, 0, 38280596834746369, 10485761], size_tt = 2\<rparr>)"
proof -
  let ?E = "\<lparr>cap = 4, slots = [0, 0, 0, 0], size_tt = 0\<rparr>"
  let ?T = "\<lparr>cap = 4, slots = [0, 0, 38280596834746369, 10485761], size_tt = 2\<rparr>"
  have legal: "legal_moveseq ''3''"
    by (simp add: legal_moveseq_def is_digit_def col_of_def upt_7)
  have run: "search 43 example_oracle ''3'' (- 1) 1 ?E = Inr (1, ?T)"
    using run_from_empty [of 41 0] by (simp del: search.simps)
  have "(0::nat) < 43" "44 \<le> 43 + length ''3''" by simp_all
  from search_terminates [OF this, of example_oracle "- 1" 1 ?E 7] run
  have "search (43 + 7) example_oracle ''3'' (- 1) 1 ?E = Inr (1, ?T)" by simp
  with legal run show ?thesis by simp
qed

end
